theory Spec2Isabelle
  imports Main "HOL-Library.Word"
begin

section \<open>Shared types\<close>

text \<open>
  Pointers to objects of the surrounding runtime (bus connections, main contexts, handler
  functions, user data, method invocations) are opaque: the code only stores them, compares
  them with NULL and passes them on. They are natural numbers here, and a pointer that may
  be NULL is an \<open>option\<close>.
\<close>

type_synonym conn = nat
type_synonym main_ctx = nat
type_synonym handler = nat
type_synonym gpointer = nat
type_synonym addr = nat
type_synonym guint32 = "32 word"
type_synonym gint = "32 word"

text \<open>A \<open>GError\<close>: what the code reads of it is the message; the code names its origin.\<close>

datatype gerror = GError (error_code: string) (error_message: string)

section \<open>gapplicationimpl-dbus.c\<close>

subsection \<open>application_path_from_appid\<close>

text \<open>
  The loop \<^verbatim>\<open>for (iter = appid_path; *iter; iter++) if (*iter == '.') *iter = '/';\<close>
  walks the string up to its terminator and overwrites each dot in place.
\<close>

fun replace_dots :: "string \<Rightarrow> string" where
  "replace_dots [] = []"
| "replace_dots (c # cs) = (if c = CHR ''.'' then CHR ''/'' else c) # replace_dots cs"

definition application_path_from_appid :: "string \<Rightarrow> string" where
  "application_path_from_appid appid = replace_dots (''/'' @ appid)"

subsection \<open>g_application_impl_register\<close>

datatype GApplicationFlags =
    G_APPLICATION_IS_SERVICE
  | G_APPLICATION_IS_LAUNCHER
  | G_APPLICATION_HANDLES_OPEN
  | G_APPLICATION_HANDLES_COMMAND_LINE
  | G_APPLICATION_SEND_ENVIRONMENT

record GApplicationImpl =
  session_bus :: "conn option"
  bus_name :: string
  object_path :: "string option"
  object_id :: guint32
  app :: gpointer

text \<open>
  What the bus answers to the three blocking calls of \<open>register\<close>: \<open>g_bus_get_sync\<close>
  (a connection, or NULL with the error set), \<open>g_dbus_connection_register_object\<close> (a
  registration id, or 0 with the error set) and the \<open>RequestName\<close> call (the reply
  \<open>(u)\<close>, or NULL with the error set).
\<close>

record register_env =
  env_bus_get_sync :: "gerror + conn"
  env_register_object :: "gerror + guint32"
  env_request_name :: "gerror + guint32"

datatype bus_op =
    Bus_get_sync
  | Register_object conn string
  | Unregister_object conn guint32
  | Request_name conn string guint32
  | Connection_unref conn

text \<open>
  The result of \<open>register\<close>: the returned pointer (\<open>None\<close> is NULL), what was
  written through the out parameter \<open>is_remote\<close> (\<open>None\<close>: left untouched), the
  error set through \<open>error\<close>, and the calls made on the bus, in order.
\<close>

record register_out =
  ret :: "GApplicationImpl option"
  is_remote :: "bool option"
  error :: "gerror option"
  ops :: "bus_op list"

definition unable_to_acquire :: "string \<Rightarrow> gerror" where
  "unable_to_acquire appid =
     GError ''G_DBUS_ERROR_FAILED'' (''Unable to acquire bus name `'' @ appid @ [CHR 0x27])"

definition g_application_impl_register ::
  "register_env \<Rightarrow> gpointer \<Rightarrow> string \<Rightarrow> GApplicationFlags set \<Rightarrow> register_out" where
  "g_application_impl_register env application appid flags =
     (case env_bus_get_sync env of
        Inl e \<Rightarrow> \<lparr>ret = None, is_remote = None, error = Some e, ops = [Bus_get_sync]\<rparr>
      | Inr bus \<Rightarrow>
         (let path = application_path_from_appid appid in
          if G_APPLICATION_IS_LAUNCHER \<in> flags then
            \<lparr>ret = Some \<lparr>session_bus = Some bus, bus_name = appid, object_path = Some path,
                          object_id = 0, app = application\<rparr>,
             is_remote = Some True, error = None, ops = [Bus_get_sync]\<rparr>
          else
            (let oid = (case env_register_object env of Inl e \<Rightarrow> 0 | Inr i \<Rightarrow> i);
                 err = (case env_register_object env of Inl e \<Rightarrow> Some e | Inr i \<Rightarrow> None);
                 ops1 = [Bus_get_sync, Register_object bus path] in
             if oid = 0 then
               \<lparr>ret = None, is_remote = None, error = err, ops = ops1 @ [Connection_unref bus]\<rparr>
             else
               (let ops2 = ops1 @ [Request_name bus appid 0x4] in
                case env_request_name env of
                  Inl e \<Rightarrow>
                    \<lparr>ret = None, is_remote = None, error = Some e,
                     ops = ops2 @ [Unregister_object bus oid, Connection_unref bus]\<rparr>
                | Inr rval \<Rightarrow>
                    if rval = 3 then
                      (if G_APPLICATION_IS_SERVICE \<in> flags then
                         \<lparr>ret = None, is_remote = Some True,
                          error = Some (unable_to_acquire appid),
                          ops = ops2 @ [Unregister_object bus oid, Connection_unref bus]\<rparr>
                       else
                         \<lparr>ret = Some \<lparr>session_bus = Some bus, bus_name = appid,
                                       object_path = Some path, object_id = 0,
                                       app = application\<rparr>,
                          is_remote = Some True, error = None,
                          ops = ops2 @ [Unregister_object bus oid]\<rparr>)
                    else
                      \<lparr>ret = Some \<lparr>session_bus = Some bus, bus_name = appid,
                                    object_path = Some path, object_id = oid,
                                    app = application\<rparr>,
                       is_remote = Some False, error = None, ops = ops2\<rparr>))))"

subsection \<open>The primary-side command-line channel (GDBusCommandLine)\<close>

text \<open>
  The inbound \<open>CommandLine\<close> call: the invocation object, its connection and sender, and
  the three children of its parameters \<open>(o, aay, a{sv})\<close>.
\<close>

record GDBusMethodInvocation =
  invocation_id :: nat
  invocation_connection :: conn
  invocation_sender :: string
  parameter_object_path :: string
  parameter_arguments :: "string list"
  parameter_platform_data :: gpointer

text \<open>
  The channel object. \<open>exit_status\<close> is the field of the parent class
  \<open>GApplicationCommandLine\<close> that \<open>g_application_command_line_set_exit_status\<close>
  writes and \<open>g_application_command_line_get_exit_status\<close> reads (zero in a new
  object); \<open>ref_count_cl\<close> is the reference count of the GObject, 1 after
  \<open>g_object_new\<close>.
\<close>

record GDBusCommandLine =
  exit_status :: gint
  arguments :: "string list"
  platform_data :: gpointer
  invocation :: nat
  connection_cl :: conn
  bus_name_cl :: string
  object_path_cl :: string
  ref_count_cl :: nat

datatype cl_effect =
    Invocation_ref nat
  | Invocation_unref nat
  | Invocation_return_value nat "gint option"
  | Call_Print conn string string string
  | Call_PrintError conn string string string
  | Before_emit gpointer
  | After_emit gpointer
  | Emit_activate
  | Emit_open "string list" string
  | Emit_command_line

definition g_dbus_command_line_new :: "GDBusMethodInvocation \<Rightarrow> GDBusCommandLine \<times> cl_effect list" where
  "g_dbus_command_line_new invoc =
     (\<lparr>exit_status = 0,
       arguments = parameter_arguments invoc,
       platform_data = parameter_platform_data invoc,
       invocation = invocation_id invoc,
       connection_cl = invocation_connection invoc,
       bus_name_cl = invocation_sender invoc,
       object_path_cl = parameter_object_path invoc,
       ref_count_cl = 1\<rparr>,
      [Invocation_ref (invocation_id invoc)])"

definition g_dbus_command_line_print_literal :: "GDBusCommandLine \<Rightarrow> string \<Rightarrow> cl_effect list" where
  "g_dbus_command_line_print_literal gdbcl message =
     [Call_Print (connection_cl gdbcl) (bus_name_cl gdbcl) (object_path_cl gdbcl) message]"

definition g_dbus_command_line_printerr_literal :: "GDBusCommandLine \<Rightarrow> string \<Rightarrow> cl_effect list" where
  "g_dbus_command_line_printerr_literal gdbcl message =
     [Call_PrintError (connection_cl gdbcl) (bus_name_cl gdbcl) (object_path_cl gdbcl) message]"

definition g_dbus_command_line_finalize :: "GDBusCommandLine \<Rightarrow> cl_effect list" where
  "g_dbus_command_line_finalize gdbcl =
     (let status = exit_status gdbcl in
      [Invocation_return_value (invocation gdbcl) (Some status),
       Invocation_unref (invocation gdbcl)])"

text \<open>
  What a holder of the channel can do with it. \<open>g_object_unref\<close> runs the finalizer when
  it drops the last reference; the object is gone afterwards (\<open>None\<close>).
\<close>

datatype cl_use =
    Print_literal string
  | Printerr_literal string
  | Set_exit_status gint
  | Object_ref
  | Object_unref

fun cl_step :: "cl_use \<Rightarrow> GDBusCommandLine \<Rightarrow> GDBusCommandLine option \<times> cl_effect list" where
  "cl_step (Print_literal m) c = (Some c, g_dbus_command_line_print_literal c m)"
| "cl_step (Printerr_literal m) c = (Some c, g_dbus_command_line_printerr_literal c m)"
| "cl_step (Set_exit_status s) c = (Some (c\<lparr>exit_status := s\<rparr>), [])"
| "cl_step Object_ref c = (Some (c\<lparr>ref_count_cl := ref_count_cl c + 1\<rparr>), [])"
| "cl_step Object_unref c =
     (if ref_count_cl c \<le> 1 then (None, g_dbus_command_line_finalize c)
      else (Some (c\<lparr>ref_count_cl := ref_count_cl c - 1\<rparr>), []))"

text \<open>
  A sequence of uses. The result is \<open>None\<close> when a use comes after the destruction of
  the channel (undefined in C: the memory is freed).
\<close>

fun cl_run :: "cl_use list \<Rightarrow> GDBusCommandLine \<Rightarrow> (GDBusCommandLine option \<times> cl_effect list) option" where
  "cl_run [] c = Some (Some c, [])"
| "cl_run (u # us) c =
     (case cl_step u c of
        (None, es) \<Rightarrow> (if us = [] then Some (None, es) else None)
      | (Some c', es) \<Rightarrow>
          (case cl_run us c' of
             None \<Rightarrow> None
           | Some (r, es') \<Rightarrow> Some (r, es @ es')))"

fun is_reply :: "cl_effect \<Rightarrow> bool" where
  "is_reply (Invocation_return_value i v) = True"
| "is_reply e = False"

text \<open>The exit status a channel holds after a sequence of uses, starting from \<open>s\<close>.\<close>

fun status_after :: "cl_use list \<Rightarrow> gint \<Rightarrow> gint" where
  "status_after [] s = s"
| "status_after (Set_exit_status s' # us) s = status_after us s'"
| "status_after (u # us) s = status_after us s"

subsection \<open>g_application_impl_method_call\<close>

text \<open>
  The dispatcher. The application's \<open>command-line\<close> handler is a parameter: the uses it
  makes of the channel while the signal is emitted, and the status it returns. An unknown
  method name reaches \<open>g_assert_not_reached\<close>: the result is \<open>None\<close>, as it is when the
  handler uses the channel after dropping its last reference.
\<close>

datatype method_call =
    Activate gpointer
  | Open "string list" string gpointer
  | CommandLine GDBusMethodInvocation
  | Other_method string

definition g_application_impl_method_call ::
  "(cl_use list \<times> gint) \<Rightarrow> method_call \<Rightarrow> cl_effect list option" where
  "g_application_impl_method_call on_command_line call =
     (case call of
        Activate pd \<Rightarrow> Some [Before_emit pd, Emit_activate, After_emit pd]
      | Open uris hint pd \<Rightarrow> Some [Before_emit pd, Emit_open uris hint, After_emit pd]
      | CommandLine invoc \<Rightarrow>
          (let (cmdline, es0) = g_dbus_command_line_new invoc;
               pd = parameter_platform_data invoc;
               (uses, status) = on_command_line in
           case cl_run uses cmdline of
             None \<Rightarrow> None
           | Some (None, es1) \<Rightarrow> None
           | Some (Some c1, es1) \<Rightarrow>
               (let c2 = c1\<lparr>exit_status := status\<rparr> in
                Some (es0 @ [Before_emit pd, Emit_command_line] @ es1 @ [After_emit pd]
                      @ snd (cl_step Object_unref c2))))
      | Other_method m \<Rightarrow> None)"

text \<open>A use of the channel that neither takes nor drops a reference.\<close>

fun plain_use :: "cl_use \<Rightarrow> bool" where
  "plain_use Object_ref = False"
| "plain_use Object_unref = False"
| "plain_use u = True"

subsection \<open>The remote command-line round trip\<close>

text \<open>
  What the private main loop of \<open>g_application_impl_command_line\<close> dispatches: inbound
  calls on the exported object (method name and first argument), and the completion of the
  \<open>CommandLine\<close> call with its reply \<open>(i)\<close> or its error.
\<close>

datatype loop_event =
    Cmdline_method_call string string
  | Cmdline_done "gerror + gint"

datatype io =
    Stdout string
  | Stderr string
  | Return_empty

text \<open>\<open>g_assert\<close> and \<open>g_assert_not_reached\<close> abort the process.\<close>

datatype abort = Assertion_failed

definition g_application_impl_cmdline_method_call :: "string \<Rightarrow> string \<Rightarrow> abort + io list" where
  "g_application_impl_cmdline_method_call method_name message =
     (if method_name = ''Print'' then Inr [Stdout message, Return_empty]
      else if method_name = ''PrintError'' then Inr [Stderr message, Return_empty]
      else Inl Assertion_failed)"

text \<open>
  \<open>CommandLineData\<close>: the status is not initialised before the reply callback runs
  (\<open>None\<close>); \<open>quit\<close> is set by \<open>g_main_loop_quit\<close>.
\<close>

record CommandLineData =
  status :: "gint option"
  quit :: bool

definition g_application_impl_cmdline_done ::
  "gerror + gint \<Rightarrow> CommandLineData \<Rightarrow> CommandLineData \<times> io list" where
  "g_application_impl_cmdline_done result data =
     (case result of
        Inr reply \<Rightarrow> (data\<lparr>status := Some reply, quit := True\<rparr>, [])
      | Inl err \<Rightarrow> (data\<lparr>status := Some 1, quit := True\<rparr>, [Stderr (error_message err @ [CHR 0x0A])]))"

text \<open>
  \<open>g_main_loop_run\<close> over the events that arrive. It returns once \<open>quit\<close> is set; when
  the events end before that, the loop blocks for ever (\<open>None\<close>).
\<close>

fun g_main_loop_run ::
  "loop_event list \<Rightarrow> CommandLineData \<Rightarrow> io list \<Rightarrow> (abort + CommandLineData \<times> io list) option" where
  "g_main_loop_run [] data out = None"
| "g_main_loop_run (Cmdline_method_call m msg # evs) data out =
     (case g_application_impl_cmdline_method_call m msg of
        Inl a \<Rightarrow> Some (Inl a)
      | Inr o1 \<Rightarrow> g_main_loop_run evs data (out @ o1))"
| "g_main_loop_run (Cmdline_done r # evs) data out =
     (let (data', o1) = g_application_impl_cmdline_done r data
      in Some (Inr (data', out @ o1)))"

text \<open>
  \<open>g_application_impl_command_line\<close>: \<open>object_id\<close> is what registering the callback
  object returned. The result is the returned status and what was written.
\<close>

definition g_application_impl_command_line ::
  "guint32 \<Rightarrow> loop_event list \<Rightarrow> (abort + gint option \<times> io list) option" where
  "g_application_impl_command_line object_id' evs =
     (if object_id' = 0 then Some (Inl Assertion_failed)
      else
        (case g_main_loop_run evs \<lparr>status = None, quit = False\<rparr> [] of
           None \<Rightarrow> None
         | Some (Inl a) \<Rightarrow> Some (Inl a)
         | Some (Inr (data, out)) \<Rightarrow> Some (Inr (status data, out))))"

fun is_print_call :: "loop_event \<Rightarrow> bool" where
  "is_print_call (Cmdline_method_call m msg) = (m = ''Print'' \<or> m = ''PrintError'')"
| "is_print_call (Cmdline_done r) = False"

section \<open>gdbusnamewatching.c\<close>

subsection \<open>Data\<close>

datatype PreviousCall =
    PREVIOUS_CALL_NONE
  | PREVIOUS_CALL_APPEARED
  | PREVIOUS_CALL_VANISHED

datatype GBusNameWatcherFlags = G_BUS_NAME_WATCHER_FLAGS_AUTO_START

text \<open>
  The struct \<open>Client\<close>. Its field \<open>id\<close> is \<open>client_id\<close> here. The two subscription ids
  are 0 when there is no subscription.
\<close>

record Client =
  ref_count :: int
  client_id :: guint32
  name :: string
  flags :: "GBusNameWatcherFlags set"
  name_owner :: "string option"
  name_appeared_handler :: "handler option"
  name_vanished_handler :: "handler option"
  user_data :: gpointer
  user_data_free_func :: "handler option"
  main_context :: "main_ctx option"
  connection :: "conn option"
  disconnected_signal_handler_id :: nat
  name_owner_changed_subscription_id :: nat
  previous_call :: PreviousCall
  cancelled :: bool
  initialized :: bool

datatype CallType =
    CALL_TYPE_NAME_APPEARED
  | CALL_TYPE_NAME_VANISHED

text \<open>
  \<open>CallHandlerData\<close>: the client (its address), and the snapshots of its connection and
  name owner taken when the call was scheduled.
\<close>

record CallHandlerData =
  client_chd :: addr
  connection_chd :: "conn option"
  name_owner_chd :: "string option"
  call_type :: CallType

text \<open>The asynchronous bus calls whose completion callback holds a reference to the client.\<close>

datatype async_call =
    BUS_GET
  | START_SERVICE_BY_NAME
  | GET_NAME_OWNER

text \<open>
  What the code does to the outside, in the order it does it: the invocations of the user's
  handlers (with their arguments), the idle sources it attaches to a main context, the
  asynchronous calls it starts, the subscriptions it drops, the references it takes and
  releases on the connection, and what it logs.
\<close>

datatype action =
    Name_appeared handler "conn option" string "string option" gpointer
  | Name_vanished handler "conn option" string gpointer
  | Idle_attach CallHandlerData "main_ctx option"
  | Async_call async_call
  | Signal_unsubscribe conn nat
  | Signal_handler_disconnect conn nat
  | Conn_ref conn
  | Conn_unref conn
  | Main_context_ref main_ctx
  | Main_context_unref main_ctx
  | User_data_free handler gpointer
  | Warn_if_fail string
  | Warning_unexpected_reply guint32
  | Warning_invalid_id guint32
  | Critical_check_failed string

subsection \<open>Reference counting\<close>

definition client_ref :: "Client \<Rightarrow> Client" where
  "client_ref client = client\<lparr>ref_count := ref_count client + 1\<rparr>"

text \<open>\<open>client_unref\<close> returns \<open>None\<close> for the client when it freed it.\<close>

definition client_unref :: "Client \<Rightarrow> Client option \<times> action list" where
  "client_unref client =
     (let c = client\<lparr>ref_count := ref_count client - 1\<rparr> in
      if ref_count c = 0 then
        (None,
         (case connection c of
            None \<Rightarrow> []
          | Some conn \<Rightarrow>
              (if name_owner_changed_subscription_id c > 0
               then [Signal_unsubscribe conn (name_owner_changed_subscription_id c)] else [])
              @ (if disconnected_signal_handler_id c > 0
                 then [Signal_handler_disconnect conn (disconnected_signal_handler_id c)] else [])
              @ [Conn_unref conn])
         @ (case main_context c of None \<Rightarrow> [] | Some m \<Rightarrow> [Main_context_unref m])
         @ (case user_data_free_func c of None \<Rightarrow> [] | Some f \<Rightarrow> [User_data_free f (user_data c)]))
      else (Some c, []))"

subsection \<open>Calling the handlers\<close>

definition actually_do_call ::
  "Client \<Rightarrow> conn option \<Rightarrow> string option \<Rightarrow> CallType \<Rightarrow> action list" where
  "actually_do_call client connection' name_owner' call_type' =
     (case call_type' of
        CALL_TYPE_NAME_APPEARED \<Rightarrow>
          (case name_appeared_handler client of
             None \<Rightarrow> []
           | Some h \<Rightarrow> [Name_appeared h connection' (name client) name_owner' (user_data client)])
      | CALL_TYPE_NAME_VANISHED \<Rightarrow>
          (case name_vanished_handler client of
             None \<Rightarrow> []
           | Some h \<Rightarrow> [Name_vanished h connection' (name client) (user_data client)]))"

definition call_in_idle_cb :: "Client \<Rightarrow> CallHandlerData \<Rightarrow> action list" where
  "call_in_idle_cb client data =
     actually_do_call client (connection_chd data) (name_owner_chd data) (call_type data)"

text \<open>
  \<open>call_handler_data_free\<close>, the destroy notify of the idle source: it releases the
  snapshot of the connection and the reference to the client.
\<close>

definition call_handler_data_free :: "Client \<Rightarrow> CallHandlerData \<Rightarrow> Client option \<times> action list" where
  "call_handler_data_free client data =
     (let a1 = (case connection_chd data of None \<Rightarrow> [] | Some conn \<Rightarrow> [Conn_unref conn]);
          (co, a2) = client_unref client
      in (co, a1 @ a2))"

text \<open>In the functions below \<open>a\<close> is the address of the client (the pointer \<open>client\<close>).\<close>

definition schedule_call_in_idle :: "addr \<Rightarrow> Client \<Rightarrow> CallType \<Rightarrow> Client \<times> action list" where
  "schedule_call_in_idle a client call_type' =
     (let c = client_ref client;
          data = \<lparr>client_chd = a, connection_chd = connection c,
                  name_owner_chd = name_owner c, call_type = call_type'\<rparr>
      in (c, (case connection c of None \<Rightarrow> [] | Some conn \<Rightarrow> [Conn_ref conn])
             @ [Idle_attach data (main_context c)]))"

text \<open>
  \<open>tdc\<close> is what \<open>g_main_context_get_thread_default ()\<close> returns in the thread that runs
  the function.
\<close>

definition do_call :: "main_ctx option \<Rightarrow> addr \<Rightarrow> Client \<Rightarrow> CallType \<Rightarrow> Client \<times> action list" where
  "do_call tdc a client call_type' =
     (if tdc \<noteq> main_context client then schedule_call_in_idle a client call_type'
      else (client, actually_do_call client (connection client) (name_owner client) call_type'))"

definition call_appeared_handler :: "main_ctx option \<Rightarrow> addr \<Rightarrow> Client \<Rightarrow> Client \<times> action list" where
  "call_appeared_handler tdc a client =
     (if previous_call client \<noteq> PREVIOUS_CALL_APPEARED then
        (let c = client\<lparr>previous_call := PREVIOUS_CALL_APPEARED\<rparr> in
         if \<not> cancelled c \<and> name_appeared_handler c \<noteq> None
         then do_call tdc a c CALL_TYPE_NAME_APPEARED
         else (c, []))
      else (client, []))"

definition call_vanished_handler ::
  "main_ctx option \<Rightarrow> addr \<Rightarrow> Client \<Rightarrow> bool \<Rightarrow> Client \<times> action list" where
  "call_vanished_handler tdc a client ignore_cancelled =
     (if previous_call client \<noteq> PREVIOUS_CALL_VANISHED then
        (let c = client\<lparr>previous_call := PREVIOUS_CALL_VANISHED\<rparr> in
         if (\<not> cancelled c \<or> ignore_cancelled) \<and> name_vanished_handler c \<noteq> None
         then do_call tdc a c CALL_TYPE_NAME_VANISHED
         else (c, []))
      else (client, []))"

subsection \<open>The callbacks\<close>

text \<open>
  \<open>on_connection_disconnected\<close> is connected to the signal \<open>closed\<close> of
  \<open>client->connection\<close>, which is therefore not NULL when it runs.
\<close>

definition on_connection_disconnected :: "main_ctx option \<Rightarrow> addr \<Rightarrow> Client \<Rightarrow> Client \<times> action list" where
  "on_connection_disconnected tdc a client =
     (let a1 = (case connection client of
                  None \<Rightarrow> []
                | Some conn \<Rightarrow>
                    (if name_owner_changed_subscription_id client > 0
                     then [Signal_unsubscribe conn (name_owner_changed_subscription_id client)]
                     else [])
                    @ (if disconnected_signal_handler_id client > 0
                       then [Signal_handler_disconnect conn (disconnected_signal_handler_id client)]
                       else [])
                    @ [Conn_unref conn]);
          c = client\<lparr>disconnected_signal_handler_id := 0,
                     name_owner_changed_subscription_id := 0,
                     connection := None\<rparr>;
          (c', a2) = call_vanished_handler tdc a c False
      in (c', a1 @ a2))"

definition on_name_owner_changed ::
  "main_ctx option \<Rightarrow> addr \<Rightarrow> Client \<Rightarrow> string \<Rightarrow> string \<Rightarrow> string \<Rightarrow> string \<Rightarrow> string \<Rightarrow> string
     \<Rightarrow> Client \<times> action list" where
  "on_name_owner_changed tdc a client sender_name object_path' interface_name name' old_owner new_owner =
     (if \<not> initialized client then (client, [])
      else if object_path' \<noteq> ''/org/freedesktop/DBus''
              \<or> interface_name \<noteq> ''org.freedesktop.DBus''
              \<or> sender_name \<noteq> ''org.freedesktop.DBus'' then (client, [])
      else if name' \<noteq> name client then (client, [])
      else
        (let (c1, a1) =
               (if old_owner \<noteq> [] \<and> name_owner client \<noteq> None
                then call_vanished_handler tdc a (client\<lparr>name_owner := None\<rparr>) False
                else (client, []));
             (c2, a2) =
               (if new_owner \<noteq> []
                then (let w = (if name_owner c1 \<noteq> None
                               then [Warn_if_fail ''client->name_owner == NULL''] else []);
                          (c, a') = call_appeared_handler tdc a (c1\<lparr>name_owner := Some new_owner\<rparr>)
                      in (c, w @ a'))
                else (c1, []))
         in (c2, a1 @ a2)))"

text \<open>
  \<open>g_dbus_connection_call_finish\<close> checks its connection argument first: on NULL it logs
  a critical and returns NULL, whatever the reply was.
\<close>

definition g_dbus_connection_call_finish :: "conn option \<Rightarrow> 'r option \<Rightarrow> 'r option \<times> action list" where
  "g_dbus_connection_call_finish connection' res =
     (case connection' of
        None \<Rightarrow> (None, [Critical_check_failed ''G_IS_DBUS_CONNECTION (connection)''])
      | Some conn \<Rightarrow> (res, []))"

definition get_name_owner_cb ::
  "main_ctx option \<Rightarrow> addr \<Rightarrow> Client \<Rightarrow> string option \<Rightarrow> Client option \<times> action list" where
  "get_name_owner_cb tdc a client res =
     (let (result, a0) = g_dbus_connection_call_finish (connection client) res;
          (c1, a1) =
            (case result of
               Some name_owner' \<Rightarrow>
                 (let w = (if name_owner client \<noteq> None
                           then [Warn_if_fail ''client->name_owner == NULL''] else []);
                      (c, a') = call_appeared_handler tdc a (client\<lparr>name_owner := Some name_owner'\<rparr>)
                  in (c, w @ a'))
             | None \<Rightarrow> call_vanished_handler tdc a client False);
          c2 = c1\<lparr>initialized := True\<rparr>;
          (co, a2) = client_unref c2
      in (co, a0 @ a1 @ a2))"

text \<open>
  \<open>g_dbus_connection_call\<close> checks its connection argument too: on NULL it logs a critical
  and starts no call, so the reference taken for the callback is never released.
\<close>

definition invoke_get_name_owner :: "Client \<Rightarrow> Client \<times> action list" where
  "invoke_get_name_owner client =
     (client_ref client,
      (case connection client of
         None \<Rightarrow> [Critical_check_failed ''G_IS_DBUS_CONNECTION (connection)'']
       | Some conn \<Rightarrow> [Async_call GET_NAME_OWNER]))"

definition start_service_by_name_cb ::
  "main_ctx option \<Rightarrow> addr \<Rightarrow> Client \<Rightarrow> guint32 option \<Rightarrow> Client option \<times> action list" where
  "start_service_by_name_cb tdc a client res =
     (let (result, a0) = g_dbus_connection_call_finish (connection client) res;
          (c1, a1) =
            (case result of
               Some start_service_result \<Rightarrow>
                 (if start_service_result = 1 then invoke_get_name_owner client
                  else if start_service_result = 2 then invoke_get_name_owner client
                  else
                    (let (c, a') = call_vanished_handler tdc a client False
                     in (c\<lparr>initialized := True\<rparr>,
                         Warning_unexpected_reply start_service_result # a')))
             | None \<Rightarrow> invoke_get_name_owner client);
          (co, a2) = client_unref c1
      in (co, a0 @ a1 @ a2))"

text \<open>
  \<open>has_connection\<close>: \<open>hid\<close> and \<open>sid\<close> are the ids that \<open>g_signal_connect\<close> and
  \<open>g_dbus_connection_signal_subscribe\<close> return.
\<close>

definition has_connection :: "Client \<Rightarrow> nat \<Rightarrow> nat \<Rightarrow> Client \<times> action list" where
  "has_connection client hid sid =
     (let c = client\<lparr>disconnected_signal_handler_id := hid,
                     name_owner_changed_subscription_id := sid\<rparr> in
      if G_BUS_NAME_WATCHER_FLAGS_AUTO_START \<in> flags c then
        (client_ref c,
         (case connection c of
            None \<Rightarrow> [Critical_check_failed ''G_IS_DBUS_CONNECTION (connection)'']
          | Some conn \<Rightarrow> [Async_call START_SERVICE_BY_NAME]))
      else invoke_get_name_owner c)"

definition connection_get_cb ::
  "main_ctx option \<Rightarrow> addr \<Rightarrow> Client \<Rightarrow> conn option \<Rightarrow> nat \<Rightarrow> nat \<Rightarrow> Client option \<times> action list" where
  "connection_get_cb tdc a client res hid sid =
     (let c = client\<lparr>connection := res\<rparr>;
          (c1, a1) =
            (if connection c = None then call_vanished_handler tdc a c False
             else has_connection c hid sid);
          (co, a2) = client_unref c1
      in (co, a1 @ a2))"

subsection \<open>The registry and the world around a watcher\<close>

text \<open>
  The two globals \<open>next_global_id\<close> and \<open>map_id_to_client\<close> (NULL until the first
  registration), the memory that holds the clients, the asynchronous calls in flight and
  the idle sources attached and not yet dispatched (each with the client it belongs to),
  and everything done so far.
\<close>

record world =
  next_global_id :: guint32
  map_id_to_client :: "(guint32 \<rightharpoonup> addr) option"
  heap :: "addr \<rightharpoonup> Client"
  pending :: "(addr \<times> async_call) list"
  idle :: "CallHandlerData list"
  trace :: "action list"

definition initial_world :: world where
  "initial_world =
     \<lparr>next_global_id = 1, map_id_to_client = None, heap = Map.empty,
      pending = [], idle = [], trace = []\<rparr>"

fun idle_of :: "action list \<Rightarrow> CallHandlerData list" where
  "idle_of [] = []"
| "idle_of (Idle_attach d m # as) = d # idle_of as"
| "idle_of (x # as) = idle_of as"

fun async_of :: "action list \<Rightarrow> async_call list" where
  "async_of [] = []"
| "async_of (Async_call k # as) = k # async_of as"
| "async_of (x # as) = async_of as"

text \<open>The effect on the world of the actions of the client at \<open>a\<close>.\<close>

definition emit :: "addr \<Rightarrow> action list \<Rightarrow> world \<Rightarrow> world" where
  "emit a acts w =
     w\<lparr>pending := pending w @ map (Pair a) (async_of acts),
       idle := idle w @ idle_of acts,
       trace := trace w @ acts\<rparr>"

definition store :: "addr \<Rightarrow> Client option \<times> action list \<Rightarrow> world \<Rightarrow> world" where
  "store a r w = emit a (snd r) (w\<lparr>heap := (heap w)(a := fst r)\<rparr>)"

definition lookup_client :: "world \<Rightarrow> guint32 \<Rightarrow> addr option" where
  "lookup_client w watcher_id =
     (case map_id_to_client w of None \<Rightarrow> None | Some m \<Rightarrow> m watcher_id)"

definition new_client ::
  "guint32 \<Rightarrow> string \<Rightarrow> GBusNameWatcherFlags set \<Rightarrow> handler option \<Rightarrow> handler option
     \<Rightarrow> gpointer \<Rightarrow> handler option \<Rightarrow> main_ctx option \<Rightarrow> Client" where
  "new_client i name' flags' appeared vanished user_data' free_func tdc =
     \<lparr>ref_count = 1, client_id = i, name = name', flags = flags', name_owner = None,
      name_appeared_handler = appeared, name_vanished_handler = vanished,
      user_data = user_data', user_data_free_func = free_func, main_context = tdc,
      connection = None, disconnected_signal_handler_id = 0,
      name_owner_changed_subscription_id = 0, previous_call = PREVIOUS_CALL_NONE,
      cancelled = False, initialized = False\<rparr>"

definition hash_table_insert :: "guint32 \<Rightarrow> addr \<Rightarrow> world \<Rightarrow> world" where
  "hash_table_insert i a w =
     w\<lparr>map_id_to_client :=
         Some ((case map_id_to_client w of None \<Rightarrow> Map.empty | Some m \<Rightarrow> m)(i \<mapsto> a))\<rparr>"

text \<open>
  \<open>g_bus_watch_name\<close>. \<open>g_dbus_is_name\<close> is the validity check of the bus layer, a
  parameter; \<open>tdc\<close> is the thread-default main context of the caller; \<open>a\<close> is the
  address \<open>g_new0\<close> returns. The result is the returned id and the world afterwards.
\<close>

definition g_bus_watch_name ::
  "(string \<Rightarrow> bool) \<Rightarrow> main_ctx option \<Rightarrow> addr \<Rightarrow> nat \<Rightarrow> string \<Rightarrow> GBusNameWatcherFlags set
     \<Rightarrow> handler option \<Rightarrow> handler option \<Rightarrow> gpointer \<Rightarrow> handler option \<Rightarrow> world
     \<Rightarrow> guint32 \<times> world" where
  "g_bus_watch_name g_dbus_is_name tdc a bus_type name' flags' appeared vanished user_data' free_func w =
     (if \<not> g_dbus_is_name name' then
        (0, emit a [Critical_check_failed ''g_dbus_is_name (name)''] w)
      else
        (let client = new_client (next_global_id w) name' flags' appeared vanished
                        user_data' free_func tdc;
             w1 = w\<lparr>next_global_id := next_global_id w + 1\<rparr>;
             w2 = hash_table_insert (client_id client) a w1;
             w3 = w2\<lparr>heap := (heap w2)(a \<mapsto> client_ref client)\<rparr>
         in (client_id client,
             emit a ((case main_context client of None \<Rightarrow> [] | Some m \<Rightarrow> [Main_context_ref m])
                     @ [Async_call BUS_GET]) w3)))"

definition g_bus_watch_name_on_connection ::
  "(string \<Rightarrow> bool) \<Rightarrow> main_ctx option \<Rightarrow> addr \<Rightarrow> conn option \<Rightarrow> nat \<Rightarrow> nat \<Rightarrow> string
     \<Rightarrow> GBusNameWatcherFlags set \<Rightarrow> handler option \<Rightarrow> handler option \<Rightarrow> gpointer
     \<Rightarrow> handler option \<Rightarrow> world \<Rightarrow> guint32 \<times> world" where
  "g_bus_watch_name_on_connection g_dbus_is_name tdc a connection' hid sid name' flags' appeared
       vanished user_data' free_func w =
     (if connection' = None then
        (0, emit a [Critical_check_failed ''G_IS_DBUS_CONNECTION (connection)''] w)
      else if \<not> g_dbus_is_name name' then
        (0, emit a [Critical_check_failed ''g_dbus_is_name (name)''] w)
      else
        (let client = new_client (next_global_id w) name' flags' appeared vanished
                        user_data' free_func tdc;
             w1 = w\<lparr>next_global_id := next_global_id w + 1\<rparr>;
             w2 = hash_table_insert (client_id client) a w1;
             c = client\<lparr>connection := connection'\<rparr>;
             (c', acts) = has_connection c hid sid
         in (client_id client,
             emit a ((case main_context client of None \<Rightarrow> [] | Some m \<Rightarrow> [Main_context_ref m])
                     @ (case connection' of None \<Rightarrow> [] | Some conn \<Rightarrow> [Conn_ref conn]) @ acts)
               (w2\<lparr>heap := (heap w2)(a \<mapsto> c')\<rparr>))))"

text \<open>
  \<open>g_bus_unwatch_name\<close>. The result is \<open>None\<close> when the registry holds the address of a
  client that is not in memory (the code would read freed memory).
\<close>

definition g_bus_unwatch_name :: "guint32 \<Rightarrow> world \<Rightarrow> world option" where
  "g_bus_unwatch_name watcher_id w =
     (if \<not> watcher_id > 0 then
        Some (w\<lparr>trace := trace w @ [Critical_check_failed ''watcher_id > 0'']\<rparr>)
      else
        (case lookup_client w watcher_id of
           None \<Rightarrow> Some (w\<lparr>trace := trace w @ [Warning_invalid_id watcher_id]\<rparr>)
         | Some a \<Rightarrow>
             (case heap w a of
                None \<Rightarrow> None
              | Some client \<Rightarrow>
                  (let c = client\<lparr>cancelled := True\<rparr>;
                       w1 = w\<lparr>map_id_to_client :=
                                 map_option (\<lambda>m. m(watcher_id := None)) (map_id_to_client w)\<rparr>
                   in Some (store a (client_unref c) w1)))))"

subsection \<open>Events\<close>

text \<open>
  What can happen to the watcher at address \<open>a\<close> after its registration: the completion of
  \<open>g_bus_get\<close> (with the ids \<open>has_connection\<close> will be given), of
  \<open>StartServiceByName\<close> and of \<open>GetNameOwner\<close>, a \<open>NameOwnerChanged\<close> signal (sender,
  object path, interface, and the three strings it carries), the closure of the connection,
  a call of \<open>g_bus_unwatch_name\<close>, and the dispatch of the first idle source.
\<close>

datatype event =
    Bus_get_finished "conn option" nat nat
  | Start_service_finished "guint32 option"
  | Get_name_owner_finished "string option"
  | Name_owner_changed string string string string string string
  | Connection_closed
  | Unwatch guint32
  | Idle_dispatch

text \<open>
  One step. An event is possible only when the runtime can deliver it: a completion when
  its call is in flight, a signal when its subscription exists, an idle dispatch when a
  source is attached; and never to a client that is freed. \<open>None\<close> says it is not
  possible. Steps are atomic: the lock of the registry and the interleaving of threads
  inside a function are not modelled, and the user's handlers are opaque (what they do in
  turn is one of the later events).
\<close>

fun step :: "main_ctx option \<Rightarrow> addr \<Rightarrow> event \<Rightarrow> world \<Rightarrow> world option" where
  "step tdc a (Bus_get_finished res hid sid) w =
     (case heap w a of
        None \<Rightarrow> None
      | Some client \<Rightarrow>
          if (a, BUS_GET) \<in> set (pending w)
          then Some (store a (connection_get_cb tdc a client res hid sid)
                       (w\<lparr>pending := remove1 (a, BUS_GET) (pending w)\<rparr>))
          else None)"
| "step tdc a (Start_service_finished res) w =
     (case heap w a of
        None \<Rightarrow> None
      | Some client \<Rightarrow>
          if (a, START_SERVICE_BY_NAME) \<in> set (pending w)
          then Some (store a (start_service_by_name_cb tdc a client res)
                       (w\<lparr>pending := remove1 (a, START_SERVICE_BY_NAME) (pending w)\<rparr>))
          else None)"
| "step tdc a (Get_name_owner_finished res) w =
     (case heap w a of
        None \<Rightarrow> None
      | Some client \<Rightarrow>
          if (a, GET_NAME_OWNER) \<in> set (pending w)
          then Some (store a (get_name_owner_cb tdc a client res)
                       (w\<lparr>pending := remove1 (a, GET_NAME_OWNER) (pending w)\<rparr>))
          else None)"
| "step tdc a (Name_owner_changed sender_name object_path' interface_name name' old_owner new_owner) w =
     (case heap w a of
        None \<Rightarrow> None
      | Some client \<Rightarrow>
          if connection client \<noteq> None \<and> name_owner_changed_subscription_id client > 0
          then (let (c, acts) = on_name_owner_changed tdc a client sender_name object_path'
                                  interface_name name' old_owner new_owner
                in Some (store a (Some c, acts) w))
          else None)"
| "step tdc a Connection_closed w =
     (case heap w a of
        None \<Rightarrow> None
      | Some client \<Rightarrow>
          if connection client \<noteq> None \<and> disconnected_signal_handler_id client > 0
          then (let (c, acts) = on_connection_disconnected tdc a client
                in Some (store a (Some c, acts) w))
          else None)"
| "step tdc a (Unwatch watcher_id) w = g_bus_unwatch_name watcher_id w"
| "step tdc a Idle_dispatch w =
     (case idle w of
        [] \<Rightarrow> None
      | data # rest \<Rightarrow>
          if client_chd data \<noteq> a then None
          else
            (case heap w a of
               None \<Rightarrow> None
             | Some client \<Rightarrow>
                 (let a1 = call_in_idle_cb client data;
                      (co, a2) = call_handler_data_free client data
                  in Some (store a (co, a1 @ a2) (w\<lparr>idle := rest\<rparr>)))))"

fun run :: "main_ctx option \<Rightarrow> addr \<Rightarrow> event list \<Rightarrow> world \<Rightarrow> world option" where
  "run tdc a [] w = Some w"
| "run tdc a (e # es) w =
     (case step tdc a e w of None \<Rightarrow> None | Some w' \<Rightarrow> run tdc a es w')"

subsection \<open>What a watcher is delivered\<close>

fun callback_kind :: "action \<Rightarrow> CallType option" where
  "callback_kind (Name_appeared h c n ow u) = Some CALL_TYPE_NAME_APPEARED"
| "callback_kind (Name_vanished h c n u) = Some CALL_TYPE_NAME_VANISHED"
| "callback_kind x = None"

fun callbacks :: "action list \<Rightarrow> CallType list" where
  "callbacks [] = []"
| "callbacks (x # xs) =
     (case callback_kind x of None \<Rightarrow> callbacks xs | Some k \<Rightarrow> k # callbacks xs)"

text \<open>The handler invocations made so far, in order, and the ones still queued.\<close>

definition delivered :: "world \<Rightarrow> CallType list" where
  "delivered w = callbacks (trace w)"

definition queued :: "world \<Rightarrow> CallType list" where
  "queued w = map call_type (idle w)"

fun alternates :: "CallType list \<Rightarrow> bool" where
  "alternates (x # y # zs) = (x \<noteq> y \<and> alternates (y # zs))"
| "alternates xs = True"

fun is_unwatch :: "event \<Rightarrow> bool" where
  "is_unwatch (Unwatch i) = True"
| "is_unwatch e = False"

text \<open>
  The events that settle the first answer about the name: the bus cannot be acquired, the
  owner query completes, the service start is answered with an unexpected code, or the
  connection closes.
\<close>

fun settles :: "event \<Rightarrow> bool" where
  "settles (Bus_get_finished res hid sid) = (res = None)"
| "settles (Get_name_owner_finished res) = True"
| "settles (Start_service_finished res) = (case res of None \<Rightarrow> False | Some r \<Rightarrow> r \<noteq> 1 \<and> r \<noteq> 2)"
| "settles Connection_closed = True"
| "settles e = False"

subsection \<open>A process with several watchers\<close>

text \<open>
  A process holds any number of watchers, registered at any time, and the events of each
  of them are handled in any thread. The idle sources of one client are attached to one
  main context with one priority, so they are dispatched in the order they were attached;
  the sources of different clients are dispatched in any order. \<open>take_first a ds\<close> is the
  first source of the client at \<open>a\<close> among \<open>ds\<close>, with the sources that are left.
\<close>

fun take_first ::
  "addr \<Rightarrow> CallHandlerData list \<Rightarrow> (CallHandlerData \<times> CallHandlerData list) option" where
  "take_first a [] = None"
| "take_first a (d # ds) =
     (if client_chd d = a then Some (d, ds)
      else (case take_first a ds of
              None \<Rightarrow> None
            | Some (x, rest) \<Rightarrow> Some (x, d # rest)))"

text \<open>The dispatch of the first idle source of the client at \<open>a\<close>.\<close>

definition dispatch_idle :: "addr \<Rightarrow> world \<Rightarrow> world option" where
  "dispatch_idle a w =
     (case take_first a (idle w) of
        None \<Rightarrow> None
      | Some (data, rest) \<Rightarrow>
          (case heap w a of
             None \<Rightarrow> None
           | Some client \<Rightarrow>
               (let a1 = call_in_idle_cb client data;
                    (co, a2) = call_handler_data_free client data
                in Some (store a (co, a1 @ a2) (w\<lparr>idle := rest\<rparr>)))))"

text \<open>
  What occurs in the process: an event of the watcher at an address, handled in a thread
  whose thread-default main context is given; or a call of \<open>g_bus_watch_name\<close> or of
  \<open>g_bus_watch_name_on_connection\<close>, with the thread-default main context of the caller,
  the address \<open>g_new0\<close> returns and the arguments of the call.
\<close>

datatype occurrence =
    At addr "main_ctx option" event
  | Watch_name "main_ctx option" addr nat string "GBusNameWatcherFlags set"
      "handler option" "handler option" gpointer "handler option"
  | Watch_name_on_connection "main_ctx option" addr "conn option" nat nat string
      "GBusNameWatcherFlags set" "handler option" "handler option" gpointer "handler option"

text \<open>
  One occurrence. \<open>g_new0\<close> returns memory that is not in use, so a registration is
  possible only at an address that holds no client.
\<close>

fun occur :: "(string \<Rightarrow> bool) \<Rightarrow> occurrence \<Rightarrow> world \<Rightarrow> world option" where
  "occur g_dbus_is_name (At a tdc e) w =
     (case e of
        Idle_dispatch \<Rightarrow> dispatch_idle a w
      | _ \<Rightarrow> step tdc a e w)"
| "occur g_dbus_is_name
     (Watch_name tdc a bus_type name' flags' appeared vanished user_data' free_func) w =
     (case heap w a of
        Some client \<Rightarrow> None
      | None \<Rightarrow>
          Some (snd (g_bus_watch_name g_dbus_is_name tdc a bus_type name' flags' appeared
                       vanished user_data' free_func w)))"
| "occur g_dbus_is_name
     (Watch_name_on_connection tdc a connection' hid sid name' flags' appeared vanished
        user_data' free_func) w =
     (case heap w a of
        Some client \<Rightarrow> None
      | None \<Rightarrow>
          Some (snd (g_bus_watch_name_on_connection g_dbus_is_name tdc a connection' hid sid
                       name' flags' appeared vanished user_data' free_func w)))"

fun process_run :: "(string \<Rightarrow> bool) \<Rightarrow> occurrence list \<Rightarrow> world \<Rightarrow> world option" where
  "process_run g_dbus_is_name [] w = Some w"
| "process_run g_dbus_is_name (x # xs) w =
     (case occur g_dbus_is_name x w of
        None \<Rightarrow> None
      | Some w' \<Rightarrow> process_run g_dbus_is_name xs w')"

text \<open>
  The occurrences that are events of the watcher at \<open>a\<close>, the registrations that are given
  the address \<open>a\<close>, the calls of \<open>g_bus_unwatch_name\<close> with the id \<open>i\<close>, and the idle
  dispatches.
\<close>

fun handled_at :: "addr \<Rightarrow> occurrence \<Rightarrow> bool" where
  "handled_at a (At b tdc e) = (a = b)"
| "handled_at a x = False"

fun registers :: "addr \<Rightarrow> occurrence \<Rightarrow> bool" where
  "registers a (At b tdc e) = False"
| "registers a (Watch_name tdc b bus_type name' flags' appeared vanished user_data' free_func)
     = (a = b)"
| "registers a (Watch_name_on_connection tdc b connection' hid sid name' flags' appeared
                  vanished user_data' free_func)
     = (a = b)"

fun unwatches :: "guint32 \<Rightarrow> occurrence \<Rightarrow> bool" where
  "unwatches i (At b tdc (Unwatch j)) = (i = j)"
| "unwatches i x = False"

fun is_idle_dispatch :: "occurrence \<Rightarrow> bool" where
  "is_idle_dispatch (At b tdc Idle_dispatch) = True"
| "is_idle_dispatch x = False"

text \<open>
  The handler invocations that one occurrence adds to the log, and the ones the watcher
  at \<open>a\<close> is delivered in a sequence of occurrences: those made by its own events. (The
  sequence is cut where an occurrence is not possible.)
\<close>

definition new_callbacks :: "world \<Rightarrow> world \<Rightarrow> CallType list" where
  "new_callbacks w w' = callbacks (drop (length (trace w)) (trace w'))"

fun delivered_to :: "(string \<Rightarrow> bool) \<Rightarrow> addr \<Rightarrow> occurrence list \<Rightarrow> world \<Rightarrow> CallType list" where
  "delivered_to g_dbus_is_name a [] w = []"
| "delivered_to g_dbus_is_name a (x # xs) w =
     (case occur g_dbus_is_name x w of
        None \<Rightarrow> []
      | Some w' \<Rightarrow>
          (if handled_at a x then new_callbacks w w' else [])
          @ delivered_to g_dbus_is_name a xs w')"

text \<open>
  The idle sources of the client at \<open>a\<close> that are attached and not dispatched, the calls
  they will make, and the asynchronous calls of the client that are in flight.
\<close>

definition own :: "addr \<Rightarrow> CallHandlerData list \<Rightarrow> CallHandlerData list" where
  "own a ds = filter (\<lambda>d. client_chd d = a) ds"

definition queued_to :: "addr \<Rightarrow> world \<Rightarrow> CallType list" where
  "queued_to a w = map call_type (own a (idle w))"

definition calls_in :: "addr \<Rightarrow> (addr \<times> async_call) list \<Rightarrow> async_call list" where
  "calls_in a ps = map snd (filter (\<lambda>p. fst p = a) ps)"

definition calls_of :: "addr \<Rightarrow> world \<Rightarrow> async_call list" where
  "calls_of a w = calls_in a (pending w)"

text \<open>
  The memory at \<open>a\<close> is not in use: it holds no client, and no idle source, no call in
  flight and no entry of the registry refers to it.
\<close>

definition unused :: "addr \<Rightarrow> world \<Rightarrow> bool" where
  "unused a w =
     (heap w a = None \<and> own a (idle w) = [] \<and> calls_of a w = []
      \<and> (\<forall>i. lookup_client w i \<noteq> Some a))"

text \<open>
  The calls of the watcher at \<open>a\<close> are made in the order they are decided when no event of
  the watcher invokes a handler at once while an earlier call of the watcher is still
  queued in an idle source.
\<close>

fun in_order :: "(string \<Rightarrow> bool) \<Rightarrow> addr \<Rightarrow> occurrence list \<Rightarrow> world \<Rightarrow> bool" where
  "in_order g_dbus_is_name a [] w = True"
| "in_order g_dbus_is_name a (x # xs) w =
     (case occur g_dbus_is_name x w of
        None \<Rightarrow> True
      | Some w' \<Rightarrow>
          (handled_at a x \<and> \<not> is_idle_dispatch x \<and> new_callbacks w w' \<noteq> []
             \<longrightarrow> queued_to a w = [])
          \<and> in_order g_dbus_is_name a xs w')"

text \<open>
  The completions and the \<open>NameOwnerChanged\<close> signals of the watcher at \<open>a\<close> are handled
  under the thread-default main context \<open>ctx\<close>. Nothing is asked of the closure of its
  connection (the signal \<open>closed\<close> is emitted in the thread the connection was made in),
  of calls of \<open>g_bus_unwatch_name\<close>, of idle dispatches, and of other watchers.
\<close>

fun replies_on_context :: "main_ctx option \<Rightarrow> addr \<Rightarrow> occurrence \<Rightarrow> bool" where
  "replies_on_context ctx a (At b tdc e) =
     (b \<noteq> a \<or> tdc = ctx
      \<or> (case e of
            Connection_closed \<Rightarrow> True
          | Unwatch i \<Rightarrow> True
          | Idle_dispatch \<Rightarrow> True
          | _ \<Rightarrow> False))"
| "replies_on_context ctx a x = True"

subsection \<open>Auxiliary notions for the proofs\<close>

text \<open>
  \<open>made k\<close> is the value \<open>previous_call\<close> takes when a call of kind \<open>k\<close> is decided;
  \<open>follows p ks\<close> says that the calls \<open>ks\<close>, made after the previous call \<open>p\<close>, never
  repeat the kind before them; \<open>last_call p ks\<close> is the previous call afterwards.
\<close>

fun made :: "CallType \<Rightarrow> PreviousCall" where
  "made CALL_TYPE_NAME_APPEARED = PREVIOUS_CALL_APPEARED"
| "made CALL_TYPE_NAME_VANISHED = PREVIOUS_CALL_VANISHED"

fun follows :: "PreviousCall \<Rightarrow> CallType list \<Rightarrow> bool" where
  "follows p [] = True"
| "follows p (k # ks) = (made k \<noteq> p \<and> follows (made k) ks)"

fun last_call :: "PreviousCall \<Rightarrow> CallType list \<Rightarrow> PreviousCall" where
  "last_call p [] = p"
| "last_call p (k # ks) = last_call (made k) ks"

text \<open>The calls a list of actions makes at once or queues.\<close>

definition requested :: "action list \<Rightarrow> CallType list" where
  "requested acts = callbacks acts @ map call_type (idle_of acts)"

text \<open>
  The invariant of a watcher with both handlers, where \<open>ds\<close> are the calls it was
  delivered so far: those and the calls still queued for it alternate, and while the
  watcher is not cancelled \<open>previous_call\<close> is the kind of the last of them.
\<close>

definition watcher_inv :: "addr \<Rightarrow> CallType list \<Rightarrow> world \<Rightarrow> bool" where
  "watcher_inv a ds w =
     (follows PREVIOUS_CALL_NONE (ds @ queued_to a w)
      \<and> (case heap w a of
           None \<Rightarrow> True
         | Some c \<Rightarrow>
             name_appeared_handler c \<noteq> None \<and> name_vanished_handler c \<noteq> None
             \<and> (cancelled c
                \<or> previous_call c = last_call PREVIOUS_CALL_NONE (ds @ queued_to a w))))"

text \<open>The idle sources that the actions of the client at \<open>a\<close> attach refer to that client.\<close>

definition tagged :: "addr \<Rightarrow> action list \<Rightarrow> bool" where
  "tagged a acts = (\<forall>d \<in> set (idle_of acts). client_chd d = a)"

text \<open>
  An occurrence that leaves alone what belongs to the watcher at \<open>a\<close>: its memory, its
  idle sources and its calls in flight; and it adds no entry for it to the registry.
\<close>

definition untouched :: "addr \<Rightarrow> world \<Rightarrow> world \<Rightarrow> bool" where
  "untouched a w w' =
     (heap w' a = heap w a \<and> own a (idle w') = own a (idle w)
      \<and> calls_of a w' = calls_of a w
      \<and> (\<forall>j. lookup_client w' j = Some a \<longrightarrow> lookup_client w j = Some a))"

text \<open>
  What one callback may do to a client with both handlers, as far as the invariant goes:
  \<open>co\<close> is the client afterwards (\<open>None\<close> when freed) and \<open>acts\<close> what it did.
\<close>

definition effect_ok :: "main_ctx option \<Rightarrow> Client \<Rightarrow> Client option \<Rightarrow> action list \<Rightarrow> bool" where
  "effect_ok tdc c co acts =
     ((tdc = main_context c \<longrightarrow> idle_of acts = [])
      \<and> (tdc \<noteq> main_context c \<longrightarrow> callbacks acts = [])
      \<and> (if cancelled c then requested acts = [] else follows (previous_call c) (requested acts))
      \<and> (case co of
           None \<Rightarrow> True
         | Some c' \<Rightarrow>
             name_appeared_handler c' = name_appeared_handler c
             \<and> name_vanished_handler c' = name_vanished_handler c
             \<and> main_context c' = main_context c
             \<and> cancelled c' = cancelled c
             \<and> (cancelled c \<or> previous_call c' = last_call (previous_call c) (requested acts))))"

text \<open>
  The references: after a callback that releases \<open>d\<close> references the client holds at
  least one reference for each idle source attached and each call started, and it is freed
  only when no such reference is left.
\<close>

definition refs_ok :: "int \<Rightarrow> Client \<Rightarrow> Client option \<Rightarrow> action list \<Rightarrow> bool" where
  "refs_ok d c co acts =
     (case co of
        None \<Rightarrow> ref_count c + int (length (idle_of acts)) + int (length (async_of acts)) \<le> d
      | Some c' \<Rightarrow>
          ref_count c + int (length (idle_of acts)) + int (length (async_of acts)) - d
            \<le> ref_count c')"

text \<open>
  A watcher is located once it has a connection or has decided a first call.
\<close>

definition located :: "Client \<Rightarrow> bool" where
  "located c = (connection c \<noteq> None \<or> previous_call c \<noteq> PREVIOUS_CALL_NONE)"

text \<open>
  A part of a callback that takes the client from \<open>c\<close> to \<open>c'\<close> and does \<open>acts\<close>: it
  keeps the handlers, the context and the cancellation, extends the calls made as the
  invariant wants, takes a reference for each idle source and each call it starts, never
  resets \<open>previous_call\<close>, and leaves the watcher located when it changes the connection
  or starts the service.
\<close>

definition moves :: "main_ctx option \<Rightarrow> Client \<Rightarrow> Client \<Rightarrow> action list \<Rightarrow> bool" where
  "moves tdc c c' acts =
     ((tdc = main_context c \<longrightarrow> idle_of acts = [])
      \<and> (tdc \<noteq> main_context c \<longrightarrow> callbacks acts = [])
      \<and> name_appeared_handler c' = name_appeared_handler c
      \<and> name_vanished_handler c' = name_vanished_handler c
      \<and> main_context c' = main_context c
      \<and> cancelled c' = cancelled c
      \<and> (if cancelled c then requested acts = []
         else follows (previous_call c) (requested acts)
              \<and> previous_call c' = last_call (previous_call c) (requested acts))
      \<and> ref_count c + int (length (idle_of acts)) + int (length (async_of acts)) \<le> ref_count c'
      \<and> (previous_call c \<noteq> PREVIOUS_CALL_NONE \<longrightarrow> previous_call c' \<noteq> PREVIOUS_CALL_NONE)
      \<and> (connection c' = connection c \<or> located c')
      \<and> (START_SERVICE_BY_NAME \<in> set (async_of acts) \<longrightarrow> located c'))"

definition answers_ok :: "Client \<Rightarrow> Client option \<Rightarrow> action list \<Rightarrow> bool" where
  "answers_ok c co acts =
     (case co of
        None \<Rightarrow> True
      | Some c' \<Rightarrow>
          (located c \<longrightarrow> located c')
          \<and> (previous_call c \<noteq> PREVIOUS_CALL_NONE \<longrightarrow> previous_call c' \<noteq> PREVIOUS_CALL_NONE)
          \<and> (START_SERVICE_BY_NAME \<in> set (async_of acts) \<longrightarrow> located c'))"

text \<open>
  The references of the watcher at \<open>a\<close>, registered with both handlers under the id
  \<open>i\<close> and delivered \<open>ds\<close> so far. No other id refers to it. While it is in memory it
  holds a reference for the registry (until it is cancelled), for each of its calls in
  flight and for each of its idle sources; it is located while its service start is in
  flight; and once it has decided a call without being cancelled, a call was delivered or
  is queued. Once it is freed nothing refers to it. \<open>ok\<close> says that a call was delivered
  or queued before.
\<close>

definition first_inv :: "addr \<Rightarrow> guint32 \<Rightarrow> bool \<Rightarrow> CallType list \<Rightarrow> world \<Rightarrow> bool" where
  "first_inv a i ok ds w =
     ((\<forall>j. lookup_client w j = Some a \<longrightarrow> j = i)
      \<and> (ok \<longrightarrow> ds @ queued_to a w \<noteq> [])
      \<and> (case heap w a of
           None \<Rightarrow>
             calls_of a w = [] \<and> queued_to a w = [] \<and> (\<forall>j. lookup_client w j \<noteq> Some a)
         | Some c \<Rightarrow>
             name_appeared_handler c \<noteq> None \<and> name_vanished_handler c \<noteq> None
             \<and> (if cancelled c then 0 else 1) + int (length (calls_of a w))
                   + int (length (queued_to a w)) \<le> ref_count c
             \<and> (cancelled c \<longrightarrow> (\<forall>j. lookup_client w j \<noteq> Some a))
             \<and> (START_SERVICE_BY_NAME \<in> set (calls_of a w) \<longrightarrow> located c)
             \<and> (\<not> cancelled c \<and> previous_call c \<noteq> PREVIOUS_CALL_NONE
                  \<longrightarrow> ds @ queued_to a w \<noteq> [])))"

text \<open>The watcher at \<open>a\<close> is in memory and not cancelled.\<close>

definition registered :: "addr \<Rightarrow> world \<Rightarrow> bool" where
  "registered a w = (case heap w a of None \<Rightarrow> False | Some c \<Rightarrow> \<not> cancelled c)"

text \<open>
  The invariant of a watcher with both handlers, registered under the context \<open>ctx\<close>,
  whose completions and \<open>NameOwnerChanged\<close> signals are handled under \<open>ctx\<close>: while the
  bus acquisition is in flight nothing else is and there is no connection; and a call is
  queued only after the connection has closed, when the previous call is Vanished.
\<close>

definition own_inv :: "main_ctx option \<Rightarrow> addr \<Rightarrow> world \<Rightarrow> bool" where
  "own_inv ctx a w =
     (case heap w a of
        None \<Rightarrow> True
      | Some c \<Rightarrow>
          name_appeared_handler c \<noteq> None \<and> name_vanished_handler c \<noteq> None
          \<and> main_context c = ctx
          \<and> (BUS_GET \<in> set (calls_of a w) \<longrightarrow> calls_of a w = [BUS_GET] \<and> connection c = None)
          \<and> (queued_to a w \<noteq> [] \<longrightarrow>
                connection c = None \<and> previous_call c = PREVIOUS_CALL_VANISHED
                \<and> BUS_GET \<notin> set (calls_of a w)))"

text \<open>What a test can read of the watcher at \<open>a\<close>: its previous call and its cancellation.\<close>

definition watcher_state :: "addr \<Rightarrow> world \<Rightarrow> (PreviousCall \<times> bool) option" where
  "watcher_state a w = map_option (\<lambda>c. (previous_call c, cancelled c)) (heap w a)"

text \<open>
  In the examples the validity check of the bus layer is replaced by a simple one (a name
  has a dot and at most 255 characters); the theorems hold for every check.
\<close>

definition example_is_name :: "string \<Rightarrow> bool" where
  "example_is_name n = (CHR ''.'' \<in> set n \<and> length n \<le> 255)"

text \<open>The watcher at \<open>a\<close> has dropped its last reference: its memory is freed.\<close>

definition freed :: "addr \<Rightarrow> world \<Rightarrow> bool" where
  "freed a w = (case heap w a of None \<Rightarrow> True | Some c \<Rightarrow> False)"

section \<open>Theorems: gapplicationimpl-dbus.c\<close>

text \<open>The loop of \<open>application_path_from_appid\<close> is a map over the characters.\<close>

lemma replace_dots_map:
  "replace_dots s = map (\<lambda>c. if c = CHR ''.'' then CHR ''/'' else c) s"
  by (induction s) simp_all

text \<open>
  Claim C6. For every string \<open>s\<close> the derived path is \<open>/\<close> followed by \<open>s\<close> with
  every dot replaced by a slash and every other character kept; the path of \<open>a.b.c\<close> is
  \<open>/a/b/c\<close>.
\<close>

theorem application_path_from_appid_spec:
  "application_path_from_appid s = CHR ''/'' # map (\<lambda>c. if c = CHR ''.'' then CHR ''/'' else c) s
   \<and> application_path_from_appid ''a.b.c'' = ''/a/b/c''"
  by (simp add: application_path_from_appid_def replace_dots_map)

text \<open>
  Claim C4, as stated, fails: with the reply code 4 to \<open>RequestName\<close> (neither 1 nor 3)
  \<open>register\<close> sets no error and returns a registration that is not remote and keeps the
  dispatcher published under its id.
\<close>

theorem register_unexpected_reply_counterexample:
  "error (g_application_impl_register
            \<lparr>env_bus_get_sync = Inr 7, env_register_object = Inr 5, env_request_name = Inr 4\<rparr>
            0 ''a.b'' {}) = None
   \<and> is_remote (g_application_impl_register
            \<lparr>env_bus_get_sync = Inr 7, env_register_object = Inr 5, env_request_name = Inr 4\<rparr>
            0 ''a.b'' {}) = Some False
   \<and> ret (g_application_impl_register
            \<lparr>env_bus_get_sync = Inr 7, env_register_object = Inr 5, env_request_name = Inr 4\<rparr>
            0 ''a.b'' {}) =
       Some \<lparr>session_bus = Some 7, bus_name = ''a.b'', object_path = Some ''/a/b'',
             object_id = 5, app = 0\<rparr>"
  by (simp add: g_application_impl_register_def application_path_from_appid_def Let_def)

text \<open>
  Claim C4, amended. When the bus is acquired, the launcher flag is not set and the dispatcher
  is published, every reply code to \<open>RequestName\<close> other than 3 gives the result of the
  primary: the registration is returned with the dispatcher still published, \<open>is_remote\<close>
  is false and no error is set.
\<close>

theorem register_reply_not_exists:
  assumes "env_bus_get_sync env = Inr bus"
    and "G_APPLICATION_IS_LAUNCHER \<notin> fl"
    and "env_register_object env = Inr oid"
    and "oid \<noteq> 0"
    and "env_request_name env = Inr rval"
    and "rval \<noteq> 3"
  shows "g_application_impl_register env application appid fl =
           \<lparr>ret = Some \<lparr>session_bus = Some bus, bus_name = appid,
                         object_path = Some (application_path_from_appid appid),
                         object_id = oid, app = application\<rparr>,
            is_remote = Some False, error = None,
            ops = [Bus_get_sync, Register_object bus (application_path_from_appid appid),
                   Request_name bus appid 4]\<rparr>"
  using assms by (simp add: g_application_impl_register_def Let_def)

text \<open>
  The amended claim C4 at the reply code 2.
\<close>

theorem register_reply_not_exists_witness:
  "g_application_impl_register
     \<lparr>env_bus_get_sync = Inr 7, env_register_object = Inr 5, env_request_name = Inr 2\<rparr>
     0 ''a.b'' {G_APPLICATION_IS_SERVICE} =
           \<lparr>ret = Some \<lparr>session_bus = Some 7, bus_name = ''a.b'',
                         object_path = Some ''/a/b'',
                         object_id = 5, app = 0\<rparr>,
            is_remote = Some False, error = None,
            ops = [Bus_get_sync, Register_object 7 ''/a/b'', Request_name 7 ''a.b'' 4]\<rparr>"
  using register_reply_not_exists [of "\<lparr>env_bus_get_sync = Inr 7, env_register_object = Inr 5, env_request_name = Inr 2\<rparr>" 7 "{G_APPLICATION_IS_SERVICE}" 5 2 0 "''a.b''"]
  by (simp add: application_path_from_appid_def)

text \<open>
  Claim C5. When \<open>RequestName\<close> replies 3, the dispatcher is unpublished and
  \<open>is_remote\<close> is set to true; with the flag \<open>IS_SERVICE\<close> the call returns no
  registration and the error \<open>Unable to acquire bus name\<close>, without it the call returns the
  registration (its dispatcher id reset to 0) and no error.
\<close>

theorem register_name_exists:
  assumes "env_bus_get_sync env = Inr bus"
    and "G_APPLICATION_IS_LAUNCHER \<notin> fl"
    and "env_register_object env = Inr oid"
    and "oid \<noteq> 0"
    and "env_request_name env = Inr 3"
  shows "is_remote (g_application_impl_register env application appid fl) = Some True
       \<and> ops (g_application_impl_register env application appid fl) =
           [Bus_get_sync, Register_object bus (application_path_from_appid appid),
            Request_name bus appid 4, Unregister_object bus oid]
           @ (if G_APPLICATION_IS_SERVICE \<in> fl then [Connection_unref bus] else [])
       \<and> (if G_APPLICATION_IS_SERVICE \<in> fl
          then ret (g_application_impl_register env application appid fl) = None
             \<and> error (g_application_impl_register env application appid fl) =
                 Some (GError ''G_DBUS_ERROR_FAILED''
                         (''Unable to acquire bus name `'' @ appid @ [CHR 0x27]))
          else ret (g_application_impl_register env application appid fl) =
                 Some \<lparr>session_bus = Some bus, bus_name = appid,
                       object_path = Some (application_path_from_appid appid),
                       object_id = 0, app = application\<rparr>
             \<and> error (g_application_impl_register env application appid fl) = None)"
  using assms by (simp add: g_application_impl_register_def unable_to_acquire_def Let_def)

text \<open>
  Claim C5 at a service that finds its name taken.
\<close>

theorem register_name_exists_witness:
  "is_remote (g_application_impl_register
       \<lparr>env_bus_get_sync = Inr 7, env_register_object = Inr 5, env_request_name = Inr 3\<rparr>
       0 ''a.b'' {G_APPLICATION_IS_SERVICE}) = Some True
   \<and> ret (g_application_impl_register
       \<lparr>env_bus_get_sync = Inr 7, env_register_object = Inr 5, env_request_name = Inr 3\<rparr>
       0 ''a.b'' {G_APPLICATION_IS_SERVICE}) = None
   \<and> error (g_application_impl_register
       \<lparr>env_bus_get_sync = Inr 7, env_register_object = Inr 5, env_request_name = Inr 3\<rparr>
       0 ''a.b'' {G_APPLICATION_IS_SERVICE}) =
         Some (GError ''G_DBUS_ERROR_FAILED'' (''Unable to acquire bus name `a.b'' @ [CHR 0x27]))"
  using register_name_exists [of "\<lparr>env_bus_get_sync = Inr 7, env_register_object = Inr 5, env_request_name = Inr 3\<rparr>" 7 "{G_APPLICATION_IS_SERVICE}" 5 0 "''a.b''"]
  by simp

text \<open>
  A use that leaves the channel alive sends no reply and keeps the invocation; only
  \<open>Set_exit_status\<close> changes the status. The use that destroys the channel is the last
  \<open>g_object_unref\<close>, and it sends the reply and releases the invocation.
\<close>

lemma cl_step_no_reply:
  "cl_step u c = (Some c', es) \<Longrightarrow>
     filter is_reply es = [] \<and> invocation c' = invocation c
     \<and> exit_status c' = (case u of Set_exit_status s \<Rightarrow> s | _ \<Rightarrow> exit_status c)"
  by (cases u)
     (auto simp: g_dbus_command_line_print_literal_def g_dbus_command_line_printerr_literal_def
           split: if_splits)

lemma cl_step_destroy:
  "cl_step u c = (None, es) \<Longrightarrow>
     u = Object_unref \<and>
     es = [Invocation_return_value (invocation c) (Some (exit_status c)),
           Invocation_unref (invocation c)]"
  by (cases u) (auto simp: g_dbus_command_line_finalize_def split: if_splits)

lemma status_after_step:
  "status_after (u # us) s = status_after us (case u of Set_exit_status s' \<Rightarrow> s' | _ \<Rightarrow> s)"
  by (cases u) simp_all

lemma cl_run_replies:
  "cl_run us c = Some (r, es) \<Longrightarrow>
     (case r of
        None \<Rightarrow>
          (\<exists>pre. es = pre @ [Invocation_return_value (invocation c)
                                (Some (status_after us (exit_status c))),
                              Invocation_unref (invocation c)]
                 \<and> filter is_reply pre = [])
      | Some c' \<Rightarrow> filter is_reply es = [] \<and> invocation c' = invocation c
                   \<and> exit_status c' = status_after us (exit_status c))"
proof (induction us arbitrary: c r es)
  case Nil
  then show ?case by auto
next
  case (Cons u us)
  obtain r1 es1 where st: "cl_step u c = (r1, es1)" by (cases "cl_step u c")
  show ?case
  proof (cases r1)
    case None
    with st Cons.prems have "us = []" and "r = None" and "es = es1"
      by (auto split: if_splits)
    moreover from st None have "u = Object_unref"
      and "es1 = [Invocation_return_value (invocation c) (Some (exit_status c)),
                  Invocation_unref (invocation c)]"
      using cl_step_destroy by auto
    ultimately show ?thesis by simp
  next
    case (Some c1)
    with st Cons.prems obtain es2 where run: "cl_run us c1 = Some (r, es2)" and es: "es = es1 @ es2"
      by (auto split: option.splits)
    from st Some have s1: "filter is_reply es1 = []" "invocation c1 = invocation c"
      "exit_status c1 = (case u of Set_exit_status s \<Rightarrow> s | _ \<Rightarrow> exit_status c)"
      using cl_step_no_reply by auto
    from Cons.IH [OF run] s1 es show ?thesis
      by (cases r) (auto simp: status_after_step)
  qed
qed

text \<open>
  Claim C7. For every sequence of uses of a channel made by \<open>g_dbus_command_line_new\<close>:
  when the sequence destroys the channel, the effects end with one reply on the invocation
  the channel was made for, carrying the exit status the channel holds at that moment, and
  the release of that invocation, and no reply comes before; when the channel is still
  alive, no reply has been sent. (No use can follow the destruction: \<open>cl_run\<close> is
  \<open>None\<close> there.)
\<close>

theorem command_line_channel_replies_once:
  assumes "cl_run us (fst (g_dbus_command_line_new invoc)) = Some (r, es)"
  shows "(r = None \<longrightarrow>
            (\<exists>pre. es = pre @ [Invocation_return_value (invocation_id invoc)
                                  (Some (status_after us 0)),
                                Invocation_unref (invocation_id invoc)]
                   \<and> filter is_reply pre = []))
       \<and> (r \<noteq> None \<longrightarrow> filter is_reply es = [])"
  using cl_run_replies [OF assms]
  by (cases r) (auto simp: g_dbus_command_line_new_def)

text \<open>
  Claim C7 at a handler that prints, sets the status 42 and drops the only reference.
\<close>

theorem command_line_channel_replies_once_witness:
  "cl_run [Print_literal ''hello'', Set_exit_status 42, Object_unref]
      (fst (g_dbus_command_line_new
         \<lparr>invocation_id = 9, invocation_connection = 1, invocation_sender = '':1.7'',
          parameter_object_path = ''/org/gtk/Application/CommandLine'',
          parameter_arguments = [''arg0''], parameter_platform_data = 0\<rparr>))
    = Some (None, [Call_Print 1 '':1.7'' ''/org/gtk/Application/CommandLine'' ''hello'',
                   Invocation_return_value 9 (Some 42), Invocation_unref 9])
   \<and> (\<exists>pre. [Call_Print 1 '':1.7'' ''/org/gtk/Application/CommandLine'' ''hello'',
              Invocation_return_value 9 (Some 42), Invocation_unref 9]
            = pre @ [Invocation_return_value 9 (Some 42), Invocation_unref 9]
            \<and> filter is_reply pre = [])"
proof -
  let ?i = "\<lparr>invocation_id = 9, invocation_connection = 1, invocation_sender = '':1.7'',
          parameter_object_path = ''/org/gtk/Application/CommandLine'',
          parameter_arguments = [''arg0''], parameter_platform_data = 0\<rparr>"
  have run: "cl_run [Print_literal ''hello'', Set_exit_status 42, Object_unref]
      (fst (g_dbus_command_line_new ?i))
    = Some (None, [Call_Print 1 '':1.7'' ''/org/gtk/Application/CommandLine'' ''hello'',
                   Invocation_return_value 9 (Some 42), Invocation_unref 9])"
    by (simp add: g_dbus_command_line_new_def g_dbus_command_line_print_literal_def
          g_dbus_command_line_finalize_def)
  from command_line_channel_replies_once [OF run] run show ?thesis by simp
qed

lemma g_main_loop_run_prints:
  "list_all is_print_call pre \<Longrightarrow>
     \<exists>out'. g_main_loop_run (pre @ Cmdline_done r # rest) data out =
              Some (Inr (fst (g_application_impl_cmdline_done r data),
                         out' @ snd (g_application_impl_cmdline_done r data)))"
proof (induction pre arbitrary: out)
  case Nil
  show ?case by (simp add: split_def Let_def)
next
  case (Cons e pre)
  then obtain m msg where e: "e = Cmdline_method_call m msg" and m: "m = ''Print'' \<or> m = ''PrintError''"
    by (cases e) auto
  from Cons have "list_all is_print_call pre" by simp
  from Cons.IH [OF this] e m show ?case
    by (auto simp: g_application_impl_cmdline_method_call_def)
qed

text \<open>
  A handler that only prints and sets the status leaves the channel alive with its one
  reference, and sends no reply.
\<close>

lemma cl_run_plain:
  "list_all plain_use us \<Longrightarrow>
     \<exists>c' es. cl_run us c = Some (Some c', es) \<and> ref_count_cl c' = ref_count_cl c
             \<and> invocation c' = invocation c \<and> filter is_reply es = []"
proof (induction us arbitrary: c)
  case Nil
  then show ?case by simp
next
  case (Cons u us)
  then have p: "plain_use u" and ps: "list_all plain_use us" by simp_all
  from p obtain c1 es1 where st: "cl_step u c = (Some c1, es1)"
    and k: "ref_count_cl c1 = ref_count_cl c" "invocation c1 = invocation c"
       "filter is_reply es1 = []"
    by (cases u)
       (auto simp: g_dbus_command_line_print_literal_def g_dbus_command_line_printerr_literal_def)
  from Cons.IH [OF ps, of c1] obtain c' es where
    "cl_run us c1 = Some (Some c', es)" "ref_count_cl c' = ref_count_cl c1"
    "invocation c' = invocation c1" "filter is_reply es = []"
    by blast
  with st k show ?case by simp
qed

text \<open>
  The dispatch of \<open>CommandLine\<close> to a handler that only prints and returns the status
  \<open>st\<close>: the invocation is referenced, the hooks and the signal run, and after
  \<open>after_emit\<close> the release of the channel sends the one reply, carrying \<open>st\<close>, and
  releases the invocation.
\<close>

theorem method_call_command_line_reply:
  assumes "list_all plain_use us"
  shows "\<exists>es. g_application_impl_method_call (us, st) (CommandLine invoc) =
                 Some ([Invocation_ref (invocation_id invoc),
                        Before_emit (parameter_platform_data invoc), Emit_command_line]
                       @ es
                       @ [After_emit (parameter_platform_data invoc),
                          Invocation_return_value (invocation_id invoc) (Some st),
                          Invocation_unref (invocation_id invoc)])
              \<and> filter is_reply es = []"
proof -
  let ?c = "fst (g_dbus_command_line_new invoc)"
  from cl_run_plain [OF assms, of ?c] obtain c' es where
    r: "cl_run us ?c = Some (Some c', es)" and k: "ref_count_cl c' = 1"
    "invocation c' = invocation_id invoc" "filter is_reply es = []"
    by (auto simp: g_dbus_command_line_new_def)
  then have "g_application_impl_method_call (us, st) (CommandLine invoc) =
                 Some ([Invocation_ref (invocation_id invoc),
                        Before_emit (parameter_platform_data invoc), Emit_command_line]
                       @ es
                       @ [After_emit (parameter_platform_data invoc),
                          Invocation_return_value (invocation_id invoc) (Some st),
                          Invocation_unref (invocation_id invoc)])"
    by (simp add: g_application_impl_method_call_def g_dbus_command_line_new_def
          g_dbus_command_line_finalize_def Let_def)
  with k(3) show ?thesis by blast
qed

text \<open>
  The dispatch of \<open>CommandLine\<close> to a handler that prints a line and an error and returns
  42.
\<close>

theorem method_call_command_line_reply_witness:
  "g_application_impl_method_call ([Print_literal ''hello'', Printerr_literal ''oops''], 42)
     (CommandLine \<lparr>invocation_id = 9, invocation_connection = 1, invocation_sender = '':1.7'',
          parameter_object_path = ''/org/gtk/Application/CommandLine'',
          parameter_arguments = [''arg0'', ''arg1''], parameter_platform_data = 0\<rparr>)
   = Some [Invocation_ref 9, Before_emit 0, Emit_command_line,
           Call_Print 1 '':1.7'' ''/org/gtk/Application/CommandLine'' ''hello'',
           Call_PrintError 1 '':1.7'' ''/org/gtk/Application/CommandLine'' ''oops'',
           After_emit 0, Invocation_return_value 9 (Some 42), Invocation_unref 9]"
proof -
  have p: "list_all plain_use [Print_literal ''hello'', Printerr_literal ''oops'']"
    by simp
  have "g_application_impl_method_call ([Print_literal ''hello'', Printerr_literal ''oops''], 42)
     (CommandLine \<lparr>invocation_id = 9, invocation_connection = 1, invocation_sender = '':1.7'',
          parameter_object_path = ''/org/gtk/Application/CommandLine'',
          parameter_arguments = [''arg0'', ''arg1''], parameter_platform_data = 0\<rparr>)
   = Some [Invocation_ref 9, Before_emit 0, Emit_command_line,
           Call_Print 1 '':1.7'' ''/org/gtk/Application/CommandLine'' ''hello'',
           Call_PrintError 1 '':1.7'' ''/org/gtk/Application/CommandLine'' ''oops'',
           After_emit 0, Invocation_return_value 9 (Some 42), Invocation_unref 9]"
    by (simp add: g_application_impl_method_call_def g_dbus_command_line_new_def
          g_dbus_command_line_finalize_def g_dbus_command_line_print_literal_def
          g_dbus_command_line_printerr_literal_def Let_def)
  with method_call_command_line_reply [OF p, of 42] show ?thesis by simp
qed

text \<open>
  Claim C8. When registering the callback object succeeded and the loop dispatches only
  \<open>Print\<close> and \<open>PrintError\<close> calls before the \<open>CommandLine\<close> call completes, the
  round trip returns: with a reply \<open>(status)\<close> it returns that status; with an error it
  writes the error message (and a newline) to stderr and returns 1.
\<close>

theorem command_line_round_trip:
  assumes "oid \<noteq> 0" and "list_all is_print_call pre"
  shows "(\<exists>out. g_application_impl_command_line oid (pre @ Cmdline_done (Inr st) # rest) =
                  Some (Inr (Some st, out)))
       \<and> (\<exists>out. g_application_impl_command_line oid (pre @ Cmdline_done (Inl err) # rest) =
                  Some (Inr (Some 1, out @ [Stderr (error_message err @ [CHR 0x0A])])))"
proof -
  from g_main_loop_run_prints [OF assms(2), of "Inr st" rest "\<lparr>status = None, quit = False\<rparr>" "[]"]
  have a: "\<exists>out. g_application_impl_command_line oid (pre @ Cmdline_done (Inr st) # rest) =
                  Some (Inr (Some st, out))"
    using assms(1)
    by (auto simp: g_application_impl_command_line_def g_application_impl_cmdline_done_def)
  from g_main_loop_run_prints [OF assms(2), of "Inl err" rest "\<lparr>status = None, quit = False\<rparr>" "[]"]
  have b: "\<exists>out. g_application_impl_command_line oid (pre @ Cmdline_done (Inl err) # rest) =
                  Some (Inr (Some 1, out @ [Stderr (error_message err @ [CHR 0x0A])]))"
    using assms(1)
    by (auto simp: g_application_impl_command_line_def g_application_impl_cmdline_done_def)
  from a b show ?thesis by blast
qed

text \<open>
  Claim C8 at two prints followed by the reply 42, and followed by an error.
\<close>

theorem command_line_round_trip_witness:
  "g_application_impl_command_line 1
      [Cmdline_method_call ''Print'' ''hello'', Cmdline_method_call ''PrintError'' ''oops'',
       Cmdline_done (Inr 42)]
     = Some (Inr (Some 42, [Stdout ''hello'', Return_empty, Stderr ''oops'', Return_empty]))
   \<and> (\<exists>out. g_application_impl_command_line 1
      ([Cmdline_method_call ''Print'' ''hello'', Cmdline_method_call ''PrintError'' ''oops'']
       @ Cmdline_done (Inl (GError ''G_IO_ERROR_FAILED'' ''no reply'')) # []) =
                  Some (Inr (Some 1, out @ [Stderr (''no reply'' @ [CHR 0x0A])])))"
proof -
  have p: "list_all is_print_call
            [Cmdline_method_call ''Print'' ''hello'', Cmdline_method_call ''PrintError'' ''oops'']"
    by simp
  have n: "(1::guint32) \<noteq> 0" by simp
  have run: "g_application_impl_command_line 1
      [Cmdline_method_call ''Print'' ''hello'', Cmdline_method_call ''PrintError'' ''oops'',
       Cmdline_done (Inr 42)]
     = Some (Inr (Some 42, [Stdout ''hello'', Return_empty, Stderr ''oops'', Return_empty]))"
    by (simp add: g_application_impl_command_line_def g_application_impl_cmdline_method_call_def
          g_application_impl_cmdline_done_def)
  from command_line_round_trip [OF n p, of 42 "[]" "GError ''G_IO_ERROR_FAILED'' ''no reply''"] run
  show ?thesis by simp
qed

section \<open>Theorems: gdbusnamewatching.c\<close>


subsection \<open>Chains of calls\<close>

text \<open>
  Lists of calls: the calls made after one another extend the chain, and a chain that
  \<open>follows\<close> anything alternates.
\<close>

lemma follows_append:
  "follows p (xs @ ys) = (follows p xs \<and> follows (last_call p xs) ys)"
  by (induction xs arbitrary: p) auto

lemma last_call_append:
  "last_call p (xs @ ys) = last_call (last_call p xs) ys"
  by (induction xs arbitrary: p) auto

lemma follows_alternates: "follows p xs \<Longrightarrow> alternates xs"
  by (induction xs arbitrary: p rule: alternates.induct) (auto split: if_splits)

lemma callbacks_append: "callbacks (xs @ ys) = callbacks xs @ callbacks ys"
  by (induction xs) (auto split: option.splits)

lemma idle_of_append: "idle_of (xs @ ys) = idle_of xs @ idle_of ys"
  by (induction xs rule: idle_of.induct) auto

lemma async_of_append: "async_of (xs @ ys) = async_of xs @ async_of ys"
  by (induction xs rule: async_of.induct) auto

subsection \<open>The two handlers\<close>

text \<open>
  Releasing a reference calls no handler, attaches no idle source and starts no call.
\<close>

lemma client_unref_quiet:
  "client_unref c = (co, acts) \<Longrightarrow> callbacks acts = [] \<and> idle_of acts = [] \<and> async_of acts = []"
  by (auto simp: client_unref_def Let_def split: if_splits option.splits)

lemma client_unref_fields:
  "client_unref c = (Some c', acts) \<Longrightarrow> c' = c\<lparr>ref_count := ref_count c - 1\<rparr>"
  by (auto simp: client_unref_def Let_def split: if_splits)

text \<open>
  What \<open>call_vanished_handler\<close> and \<open>call_appeared_handler\<close> do: they set
  \<open>previous_call\<close>, and they request one call exactly when the previous call was of the
  other kind (or none), the watcher is not cancelled (or cancellation is ignored) and the
  handler is not NULL; the call is made at once on the watcher's own context and queued
  otherwise, with one more reference on the client.
\<close>

lemma call_vanished_handler_summary:
  assumes "call_vanished_handler tdc a c ig = (c', acts)"
  shows "c' = c\<lparr>previous_call := PREVIOUS_CALL_VANISHED,
                  ref_count := ref_count c + int (length (idle_of acts))\<rparr>"
    and "tdc = main_context c \<Longrightarrow> idle_of acts = []"
    and "tdc \<noteq> main_context c \<Longrightarrow> callbacks acts = []"
    and "async_of acts = []"
    and "requested acts =
           (if previous_call c \<noteq> PREVIOUS_CALL_VANISHED \<and> (\<not> cancelled c \<or> ig)
               \<and> name_vanished_handler c \<noteq> None
            then [CALL_TYPE_NAME_VANISHED] else [])"
  using assms
  by (auto simp: call_vanished_handler_def do_call_def schedule_call_in_idle_def
        actually_do_call_def client_ref_def requested_def Let_def
      split: if_splits option.splits)

lemma call_appeared_handler_summary:
  assumes "call_appeared_handler tdc a c = (c', acts)"
  shows "c' = c\<lparr>previous_call := PREVIOUS_CALL_APPEARED,
                  ref_count := ref_count c + int (length (idle_of acts))\<rparr>"
    and "tdc = main_context c \<Longrightarrow> idle_of acts = []"
    and "tdc \<noteq> main_context c \<Longrightarrow> callbacks acts = []"
    and "async_of acts = []"
    and "requested acts =
           (if previous_call c \<noteq> PREVIOUS_CALL_APPEARED \<and> \<not> cancelled c
               \<and> name_appeared_handler c \<noteq> None
            then [CALL_TYPE_NAME_APPEARED] else [])"
  using assms
  by (auto simp: call_appeared_handler_def do_call_def schedule_call_in_idle_def
        actually_do_call_def client_ref_def requested_def Let_def
      split: if_splits option.splits)


subsection \<open>Composing the parts of a callback\<close>

text \<open>
  The parts of a callback compose.
\<close>

lemma requested_Nil [simp]: "requested [] = []"
  by (simp add: requested_def)

lemma moves_refl: "moves tdc c c []"
  by (simp add: moves_def)

lemma moves_trans:
  assumes "moves tdc c c1 a1" and "moves tdc c1 c2 a2"
  shows "moves tdc c c2 (a1 @ a2)"
proof -
  have req: "requested (a1 @ a2) = requested a1 @ requested a2"
    using assms
    by (cases "tdc = main_context c")
       (simp_all add: moves_def requested_def callbacks_append idle_of_append)
  have loc: "located c1 \<Longrightarrow> located c2"
    using assms(2) by (auto simp: moves_def located_def)
  have "connection c2 = connection c \<or> located c2"
    using assms loc by (auto simp: moves_def)
  moreover have "START_SERVICE_BY_NAME \<in> set (async_of (a1 @ a2)) \<longrightarrow> located c2"
    using assms loc by (auto simp: moves_def async_of_append)
  moreover have "previous_call c \<noteq> PREVIOUS_CALL_NONE \<longrightarrow> previous_call c2 \<noteq> PREVIOUS_CALL_NONE"
    using assms by (simp add: moves_def)
  moreover have "ref_count c + int (length (idle_of (a1 @ a2))) + int (length (async_of (a1 @ a2)))
                   \<le> ref_count c2"
    using assms by (simp add: moves_def idle_of_append async_of_append)
  moreover have "(if cancelled c then requested a1 @ requested a2 = []
         else follows (previous_call c) (requested a1 @ requested a2)
              \<and> previous_call c2 = last_call (previous_call c) (requested a1 @ requested a2))"
    using assms by (auto simp: moves_def follows_append last_call_append split: if_splits)
  moreover have "(tdc = main_context c \<longrightarrow> idle_of (a1 @ a2) = [])
                 \<and> (tdc \<noteq> main_context c \<longrightarrow> callbacks (a1 @ a2) = [])"
    using assms by (simp add: moves_def idle_of_append callbacks_append)
  moreover have "name_appeared_handler c2 = name_appeared_handler c"
    "name_vanished_handler c2 = name_vanished_handler c"
    "main_context c2 = main_context c" "cancelled c2 = cancelled c"
    using assms by (simp_all add: moves_def)
  ultimately show ?thesis
    unfolding moves_def req by blast
qed

lemma moves_vanished:
  assumes "call_vanished_handler tdc a c False = (c', acts)"
    and "name_vanished_handler c \<noteq> None"
  shows "moves tdc c c' acts" and "previous_call c' = PREVIOUS_CALL_VANISHED"
  using call_vanished_handler_summary [OF assms(1)] assms(2)
  by (auto simp: moves_def located_def split: if_splits)

lemma moves_appeared:
  assumes "call_appeared_handler tdc a c = (c', acts)"
    and "name_appeared_handler c \<noteq> None"
  shows "moves tdc c c' acts" and "previous_call c' = PREVIOUS_CALL_APPEARED"
  using call_appeared_handler_summary [OF assms(1)] assms(2)
  by (auto simp: moves_def located_def split: if_splits)

lemma moves_invoke_get_name_owner:
  "invoke_get_name_owner c = (c', acts) \<Longrightarrow> moves tdc c c' acts"
  by (auto simp: invoke_get_name_owner_def client_ref_def moves_def requested_def
      split: option.splits)

lemma moves_located: "moves tdc c c' acts \<Longrightarrow> located c \<Longrightarrow> located c'"
  by (auto simp: moves_def located_def)

lemma moves_has_connection:
  "has_connection c hid sid = (c', acts) \<Longrightarrow> moves tdc c c' acts"
  by (auto simp: has_connection_def invoke_get_name_owner_def client_ref_def moves_def
        requested_def located_def Let_def split: option.splits if_splits)

text \<open>Updates of the fields the invariant does not read, and actions that call nothing.\<close>

lemma moves_name_owner: "moves tdc c (c\<lparr>name_owner := x\<rparr>) []"
  by (simp add: moves_def)

lemma moves_initialized: "moves tdc c (c\<lparr>initialized := x\<rparr>) []"
  by (simp add: moves_def)

text \<open>
  An update of the connection is followed by a call that leaves the watcher located: the
  vanished handler, or \<open>has_connection\<close> on a connection that is not NULL.
\<close>

lemma moves_from:
  assumes "moves tdc c0 c' acts"
    and "located c'"
    and "name_appeared_handler c0 = name_appeared_handler c"
    and "name_vanished_handler c0 = name_vanished_handler c"
    and "main_context c0 = main_context c" and "cancelled c0 = cancelled c"
    and "previous_call c0 = previous_call c" and "ref_count c0 = ref_count c"
  shows "moves tdc c c' acts"
  using assms unfolding moves_def by (auto split: if_splits)

lemma moves_quiet:
  assumes "moves tdc c c' acts" and "callbacks q = []" and "idle_of q = []" and "async_of q = []"
  shows "moves tdc c c' (q @ acts)"
proof -
  from assms(2,3) have "requested (q @ acts) = requested acts"
    by (simp add: requested_def callbacks_append idle_of_append)
  with assms show ?thesis
    by (simp add: moves_def callbacks_append idle_of_append async_of_append)
qed

text \<open>
  A callback ends with \<open>client_unref\<close>; a signal handler keeps the client.
\<close>

lemma moves_unref:
  assumes "moves tdc c c1 a1" and "client_unref c1 = (co, a2)"
  shows "effect_ok tdc c co (a1 @ a2)" and "refs_ok 1 c co (a1 @ a2)"
    and "answers_ok c co (a1 @ a2)"
    and "\<And>c'. co = Some c' \<Longrightarrow> previous_call c' = previous_call c1"
proof -
  from client_unref_quiet [OF assms(2)]
  have q: "callbacks a2 = []" "idle_of a2 = []" "async_of a2 = []" by auto
  then have req: "requested (a1 @ a2) = requested a1"
    by (simp add: requested_def callbacks_append idle_of_append)
  show "effect_ok tdc c co (a1 @ a2)"
  proof (cases co)
    case None
    with assms(1) q show ?thesis
      unfolding effect_ok_def req
      by (auto simp: moves_def callbacks_append idle_of_append split: if_splits)
  next
    case (Some c')
    with client_unref_fields assms(2) have "c' = c1\<lparr>ref_count := ref_count c1 - 1\<rparr>" by blast
    with Some assms(1) q show ?thesis
      unfolding effect_ok_def req
      by (auto simp: moves_def callbacks_append idle_of_append split: if_splits)
  qed
  show "refs_ok 1 c co (a1 @ a2)"
  proof (cases co)
    case None
    with assms(2) have "ref_count c1 - 1 = 0"
      by (auto simp: client_unref_def Let_def split: if_splits)
    with None assms(1) q show ?thesis
      by (auto simp: refs_ok_def moves_def idle_of_append async_of_append split: if_splits)
  next
    case (Some c')
    with client_unref_fields assms(2) have "c' = c1\<lparr>ref_count := ref_count c1 - 1\<rparr>" by blast
    with Some assms(1) q show ?thesis
      by (auto simp: refs_ok_def moves_def idle_of_append async_of_append split: if_splits)
  qed
  show "answers_ok c co (a1 @ a2)"
  proof (cases co)
    case None
    then show ?thesis by (simp add: answers_ok_def)
  next
    case (Some c')
    with client_unref_fields assms(2) have "c' = c1\<lparr>ref_count := ref_count c1 - 1\<rparr>" by blast
    with Some assms(1) q moves_located [OF assms(1)] show ?thesis
      by (auto simp: answers_ok_def moves_def located_def async_of_append)
  qed
  show "\<And>c'. co = Some c' \<Longrightarrow> previous_call c' = previous_call c1"
    using client_unref_fields assms(2) by fastforce
qed

lemma moves_keep:
  assumes "moves tdc c c' acts"
  shows "effect_ok tdc c (Some c') acts" and "refs_ok 0 c (Some c') acts"
    and "answers_ok c (Some c') acts"
  using assms moves_located [OF assms]
  by (auto simp: effect_ok_def refs_ok_def answers_ok_def moves_def split: if_splits)

lemma moves_set_then:
  assumes "moves tdc c c1 []" and "moves tdc c1 c2 acts"
  shows "moves tdc c c2 acts"
  using moves_trans [OF assms] by simp

lemma moves_then_set:
  assumes "moves tdc c c1 acts" and "moves tdc c1 c2 []"
  shows "moves tdc c c2 acts"
  using moves_trans [OF assms] by simp

subsection \<open>The callbacks as a whole\<close>

text \<open>
  Each callback of the source, as a whole.
\<close>

lemma call_finish_quiet:
  "g_dbus_connection_call_finish x res = (result, a0) \<Longrightarrow>
     callbacks a0 = [] \<and> idle_of a0 = [] \<and> async_of a0 = []"
  by (auto simp: g_dbus_connection_call_finish_def split: option.splits)

lemma call_finish_result:
  "g_dbus_connection_call_finish x res = (result, a0) \<Longrightarrow> x \<noteq> None \<Longrightarrow> result = res"
  by (auto simp: g_dbus_connection_call_finish_def split: option.splits)

lemma moves_appeared_owner:
  assumes "(let w = (if name_owner c0 \<noteq> None then [Warn_if_fail s] else []);
                (c, a') = call_appeared_handler tdc a (c0\<lparr>name_owner := Some n\<rparr>)
            in (c, w @ a')) = (c1, a1)"
    and "name_appeared_handler c0 \<noteq> None"
  shows "moves tdc c0 c1 a1" and "previous_call c1 = PREVIOUS_CALL_APPEARED"
proof -
  obtain c' a' where h: "call_appeared_handler tdc a (c0\<lparr>name_owner := Some n\<rparr>) = (c', a')"
    by (cases "call_appeared_handler tdc a (c0\<lparr>name_owner := Some n\<rparr>)")
  with assms(1) have eq: "c1 = c'"
    "a1 = (if name_owner c0 \<noteq> None then [Warn_if_fail s] else []) @ a'"
    by (simp_all add: Let_def)
  from assms(2) have m: "moves tdc (c0\<lparr>name_owner := Some n\<rparr>) c' a'"
    and p: "previous_call c' = PREVIOUS_CALL_APPEARED"
    using moves_appeared [OF h] by simp_all
  from moves_name_owner m have "moves tdc c0 c' a'"
    by (rule moves_set_then)
  then show "moves tdc c0 c1 a1"
    unfolding eq by (rule moves_quiet) simp_all
  from p eq show "previous_call c1 = PREVIOUS_CALL_APPEARED" by simp
qed

lemma get_name_owner_cb_effect:
  assumes "get_name_owner_cb tdc a c res = (co, acts)"
    and "name_appeared_handler c \<noteq> None" and "name_vanished_handler c \<noteq> None"
  shows "effect_ok tdc c co acts" and "refs_ok 1 c co acts" and "answers_ok c co acts"
    and "\<And>c'. co = Some c' \<Longrightarrow> previous_call c' \<noteq> PREVIOUS_CALL_NONE"
proof -
  obtain result a0 where fin: "g_dbus_connection_call_finish (connection c) res = (result, a0)"
    by (cases "g_dbus_connection_call_finish (connection c) res")
  define mid where "mid =
     (case result of
        Some name_owner' \<Rightarrow>
          (let w = (if name_owner c \<noteq> None
                    then [Warn_if_fail ''client->name_owner == NULL''] else []);
               (c', a') = call_appeared_handler tdc a (c\<lparr>name_owner := Some name_owner'\<rparr>)
           in (c', w @ a'))
      | None \<Rightarrow> call_vanished_handler tdc a c False)"
  obtain c1 a1 where mid: "mid = (c1, a1)" by (cases mid)
  obtain co' a2 where un: "client_unref (c1\<lparr>initialized := True\<rparr>) = (co', a2)"
    by (cases "client_unref (c1\<lparr>initialized := True\<rparr>)")
  from assms(1) fin mid un have res: "co = co'" "acts = (a0 @ a1) @ a2"
    by (simp_all add: get_name_owner_cb_def mid_def [symmetric])
  have m1: "moves tdc c c1 a1" and p1: "previous_call c1 \<noteq> PREVIOUS_CALL_NONE"
  proof -
    show "moves tdc c c1 a1"
    proof (cases result)
      case None
      with mid have "call_vanished_handler tdc a c False = (c1, a1)" by (simp add: mid_def)
      then show ?thesis using assms(3) by (rule moves_vanished(1))
    next
      case (Some n)
      with mid show ?thesis
        using moves_appeared_owner(1) [of c _ tdc a n c1 a1] assms(2) by (simp add: mid_def)
    qed
    show "previous_call c1 \<noteq> PREVIOUS_CALL_NONE"
    proof (cases result)
      case None
      with mid have "call_vanished_handler tdc a c False = (c1, a1)" by (simp add: mid_def)
      from moves_vanished(2) [OF this assms(3)] show ?thesis by simp
    next
      case (Some n)
      with mid show ?thesis
        using moves_appeared_owner(2) [of c _ tdc a n c1 a1] assms(2) by (simp add: mid_def)
    qed
  qed
  from m1 have "moves tdc c (c1\<lparr>initialized := True\<rparr>) a1"
    using moves_initialized by (rule moves_then_set)
  then have "moves tdc c (c1\<lparr>initialized := True\<rparr>) (a0 @ a1)"
    using call_finish_quiet [OF fin] by (intro moves_quiet) simp_all
  from moves_unref [OF this un] res p1
  show "effect_ok tdc c co acts" and "refs_ok 1 c co acts" and "answers_ok c co acts"
    and "\<And>c'. co = Some c' \<Longrightarrow> previous_call c' \<noteq> PREVIOUS_CALL_NONE"
    by simp_all
qed

lemma start_service_by_name_cb_effect:
  assumes "start_service_by_name_cb tdc a c res = (co, acts)"
    and "name_appeared_handler c \<noteq> None" and "name_vanished_handler c \<noteq> None"
  shows "effect_ok tdc c co acts" and "refs_ok 1 c co acts" and "answers_ok c co acts"
    and "\<And>c' r. co = Some c' \<Longrightarrow> res = Some r \<Longrightarrow> r \<noteq> 1 \<Longrightarrow> r \<noteq> 2 \<Longrightarrow> connection c \<noteq> None
           \<Longrightarrow> previous_call c' \<noteq> PREVIOUS_CALL_NONE"
proof -
  obtain result a0 where fin: "g_dbus_connection_call_finish (connection c) res = (result, a0)"
    by (cases "g_dbus_connection_call_finish (connection c) res")
  define mid where "mid =
     (case result of
        Some start_service_result \<Rightarrow>
          (if start_service_result = 1 then invoke_get_name_owner c
           else if start_service_result = 2 then invoke_get_name_owner c
           else
             (let (c', a') = call_vanished_handler tdc a c False
              in (c'\<lparr>initialized := True\<rparr>,
                  Warning_unexpected_reply start_service_result # a')))
      | None \<Rightarrow> invoke_get_name_owner c)"
  obtain c1 a1 where mid: "mid = (c1, a1)" by (cases mid)
  obtain co' a2 where un: "client_unref c1 = (co', a2)"
    by (cases "client_unref c1")
  from assms(1) fin mid un have res: "co = co'" "acts = (a0 @ a1) @ a2"
    by (simp_all add: start_service_by_name_cb_def mid_def [symmetric])
  obtain cv av where h: "call_vanished_handler tdc a c False = (cv, av)"
    by (cases "call_vanished_handler tdc a c False")
  have unexpected: "c1 = cv\<lparr>initialized := True\<rparr> \<and> a1 = [Warning_unexpected_reply r] @ av"
    if "result = Some r" "r \<noteq> 1" "r \<noteq> 2" for r
    using that h mid by (simp add: mid_def)
  have m1: "moves tdc c c1 a1"
  proof (cases "mid = invoke_get_name_owner c")
    case True
    with mid show ?thesis using moves_invoke_get_name_owner by simp
  next
    case False
    then obtain r where r: "result = Some r" "r \<noteq> 1" "r \<noteq> 2"
      by (cases result) (auto simp: mid_def split: if_splits)
    from unexpected [OF r]
    have eq: "c1 = cv\<lparr>initialized := True\<rparr>" "a1 = [Warning_unexpected_reply r] @ av"
      by simp_all
    from h assms(3) have "moves tdc c cv av" by (rule moves_vanished(1))
    then have "moves tdc c (cv\<lparr>initialized := True\<rparr>) av"
      using moves_initialized by (rule moves_then_set)
    then show ?thesis unfolding eq by (rule moves_quiet) simp_all
  qed
  then have "moves tdc c c1 (a0 @ a1)"
    using call_finish_quiet [OF fin] by (intro moves_quiet) simp_all
  from moves_unref [OF this un] res
  show "effect_ok tdc c co acts" and "refs_ok 1 c co acts" and "answers_ok c co acts"
    by simp_all
  show "previous_call c' \<noteq> PREVIOUS_CALL_NONE"
    if "co = Some c'" "res = Some r" "r \<noteq> 1" "r \<noteq> 2" "connection c \<noteq> None" for c' r
  proof -
    from call_finish_result [OF fin that(5)] that(2) have "result = Some r" by simp
    from unexpected [OF this that(3,4)] moves_vanished(2) [OF h assms(3)]
    have "previous_call c1 = PREVIOUS_CALL_VANISHED" by simp
    with client_unref_fields un res(1) that(1) show ?thesis by fastforce
  qed
qed

lemma connection_get_cb_effect:
  assumes "connection_get_cb tdc a c res hid sid = (co, acts)"
    and "name_appeared_handler c \<noteq> None" and "name_vanished_handler c \<noteq> None"
  shows "effect_ok tdc c co acts" and "refs_ok 1 c co acts" and "answers_ok c co acts"
    and "\<And>c'. co = Some c' \<Longrightarrow> res = None \<Longrightarrow> previous_call c' \<noteq> PREVIOUS_CALL_NONE"
proof -
  let ?c = "c\<lparr>connection := res\<rparr>"
  define mid where "mid =
     (if connection ?c = None then call_vanished_handler tdc a ?c False
      else has_connection ?c hid sid)"
  obtain c1 a1 where mid: "mid = (c1, a1)" by (cases mid)
  obtain co' a2 where un: "client_unref c1 = (co', a2)"
    by (cases "client_unref c1")
  from assms(1) mid un have res: "co = co'" "acts = a1 @ a2"
    by (simp_all add: connection_get_cb_def Let_def mid_def)
  have m: "moves tdc ?c c1 a1" and l: "located c1"
    and p: "res = None \<Longrightarrow> previous_call c1 = PREVIOUS_CALL_VANISHED"
  proof -
    show "moves tdc ?c c1 a1"
    proof (cases "connection ?c = None")
      case True
      with mid have "call_vanished_handler tdc a ?c False = (c1, a1)" by (simp add: mid_def)
      then show ?thesis using assms(3) by (intro moves_vanished(1)) simp_all
    next
      case False
      with mid have "has_connection ?c hid sid = (c1, a1)" by (auto simp: mid_def)
      then show ?thesis by (rule moves_has_connection)
    qed
    show p: "previous_call c1 = PREVIOUS_CALL_VANISHED" if "res = None"
    proof -
      from that mid have "call_vanished_handler tdc a ?c False = (c1, a1)" by (simp add: mid_def)
      from moves_vanished(2) [OF this] assms(3) show ?thesis by simp
    qed
    show "located c1"
    proof (cases res)
      case None
      with p show ?thesis by (simp add: located_def)
    next
      case (Some k)
      with mid have "has_connection ?c hid sid = (c1, a1)" by (auto simp: mid_def)
      from moves_located [OF moves_has_connection [OF this]] Some
      show ?thesis by (simp add: located_def)
    qed
  qed
  from m l have "moves tdc c c1 a1" by (rule moves_from) simp_all
  from moves_unref [OF this un] res p
  show "effect_ok tdc c co acts" and "refs_ok 1 c co acts" and "answers_ok c co acts"
    and "\<And>c'. co = Some c' \<Longrightarrow> res = None \<Longrightarrow> previous_call c' \<noteq> PREVIOUS_CALL_NONE"
    by simp_all
qed

lemma on_connection_disconnected_moves:
  assumes "on_connection_disconnected tdc a c = (c', acts)"
    and "name_vanished_handler c \<noteq> None"
  shows "moves tdc c c' acts" and "previous_call c' = PREVIOUS_CALL_VANISHED"
proof -
  let ?c = "c\<lparr>disconnected_signal_handler_id := 0,
               name_owner_changed_subscription_id := 0, connection := None\<rparr>"
  obtain c1 a2 where h: "call_vanished_handler tdc a ?c False = (c1, a2)"
    by (cases "call_vanished_handler tdc a ?c False")
  with assms(1) obtain a1 where eq: "c' = c1" "acts = a1 @ a2"
    and q: "callbacks a1 = []" "idle_of a1 = []" "async_of a1 = []"
    by (auto simp: on_connection_disconnected_def Let_def split: option.splits)
  from h assms(2) have m: "moves tdc ?c c1 a2" and p: "previous_call c1 = PREVIOUS_CALL_VANISHED"
    using moves_vanished [OF h] by simp_all
  from p have "located c1" by (simp add: located_def)
  with m have "moves tdc c c1 a2" by (rule moves_from) simp_all
  then show "moves tdc c c' acts" unfolding eq using q by (rule moves_quiet)
  from p eq show "previous_call c' = PREVIOUS_CALL_VANISHED" by simp
qed

lemma on_name_owner_changed_moves:
  assumes "on_name_owner_changed tdc a c s p i n old new = (c', acts)"
    and "name_appeared_handler c \<noteq> None" and "name_vanished_handler c \<noteq> None"
  shows "moves tdc c c' acts"
proof (cases "\<not> initialized c \<or> p \<noteq> ''/org/freedesktop/DBus''
              \<or> i \<noteq> ''org.freedesktop.DBus'' \<or> s \<noteq> ''org.freedesktop.DBus''
              \<or> n \<noteq> name c")
  case True
  with assms(1) have "c' = c" "acts = []"
    by (auto simp: on_name_owner_changed_def split: if_splits)
  then show ?thesis by (simp add: moves_refl)
next
  case False
  define first where "first =
     (if old \<noteq> [] \<and> name_owner c \<noteq> None
      then call_vanished_handler tdc a (c\<lparr>name_owner := None\<rparr>) False
      else (c, []))"
  obtain c1 a1 where first: "first = (c1, a1)" by (cases first)
  define second where "second =
     (if new \<noteq> []
      then (let w = (if name_owner c1 \<noteq> None
                     then [Warn_if_fail ''client->name_owner == NULL''] else []);
                (c, a') = call_appeared_handler tdc a (c1\<lparr>name_owner := Some new\<rparr>)
            in (c, w @ a'))
      else (c1, []))"
  obtain c2 a2 where second: "second = (c2, a2)" by (cases second)
  from False assms(1) first second have eq: "c' = c2" "acts = a1 @ a2"
    by (simp_all add: on_name_owner_changed_def first_def second_def)
  have m1: "moves tdc c c1 a1"
  proof (cases "old \<noteq> [] \<and> name_owner c \<noteq> None")
    case True
    with first have "call_vanished_handler tdc a (c\<lparr>name_owner := None\<rparr>) False = (c1, a1)"
      by (simp add: first_def)
    with assms(3) have "moves tdc (c\<lparr>name_owner := None\<rparr>) c1 a1"
      by (intro moves_vanished(1)) simp_all
    with moves_name_owner show ?thesis by (rule moves_set_then)
  next
    case False
    with first show ?thesis by (auto simp: first_def moves_refl)
  qed
  then have h1: "name_appeared_handler c1 \<noteq> None"
    using assms(2) by (simp add: moves_def)
  have m2: "moves tdc c1 c2 a2"
  proof (cases "new \<noteq> []")
    case True
    with second show ?thesis
      using moves_appeared_owner(1) [of c1 _ tdc a new c2 a2] h1 by (simp add: second_def)
  next
    case False
    with second show ?thesis by (auto simp: second_def moves_refl)
  qed
  from moves_trans [OF m1 m2] eq show ?thesis by simp
qed


subsection \<open>The world\<close>

text \<open>
  The projections of the world after \<open>emit\<close>, \<open>store\<close> and updates of single fields.
\<close>

lemma last_call_made: "follows p xs \<Longrightarrow> xs \<noteq> [] \<Longrightarrow> last_call p xs \<noteq> PREVIOUS_CALL_NONE"
  by (induction xs arbitrary: p) (auto, metis made.elims PreviousCall.distinct(1,3) last_call.simps(1))

lemma heap_emit [simp]: "heap (emit a acts w) = heap w"
  by (simp add: emit_def)

lemma idle_emit [simp]: "idle (emit a acts w) = idle w @ idle_of acts"
  by (simp add: emit_def)

lemma pending_emit [simp]: "pending (emit a acts w) = pending w @ map (Pair a) (async_of acts)"
  by (simp add: emit_def)

lemma trace_emit [simp]: "trace (emit a acts w) = trace w @ acts"
  by (simp add: emit_def)

lemma registry_emit [simp]:
  "map_id_to_client (emit a acts w) = map_id_to_client w"
  "next_global_id (emit a acts w) = next_global_id w"
  "lookup_client (emit a acts w) j = lookup_client w j"
  by (simp_all add: emit_def lookup_client_def)

lemma store_fields [simp]:
  "heap (store a (co, acts) w) = (heap w)(a := co)"
  "idle (store a (co, acts) w) = idle w @ idle_of acts"
  "pending (store a (co, acts) w) = pending w @ map (Pair a) (async_of acts)"
  "trace (store a (co, acts) w) = trace w @ acts"
  "lookup_client (store a (co, acts) w) j = lookup_client w j"
  by (simp_all add: store_def lookup_client_def)

lemma lookup_client_update [simp]:
  "lookup_client (w\<lparr>heap := h\<rparr>) j = lookup_client w j"
  "lookup_client (w\<lparr>pending := p\<rparr>) j = lookup_client w j"
  "lookup_client (w\<lparr>idle := q\<rparr>) j = lookup_client w j"
  "lookup_client (w\<lparr>trace := t\<rparr>) j = lookup_client w j"
  "lookup_client (w\<lparr>next_global_id := n\<rparr>) j = lookup_client w j"
  by (simp_all add: lookup_client_def)

lemma new_callbacks_append:
  "trace w' = trace w @ acts \<Longrightarrow> new_callbacks w w' = callbacks acts"
  by (simp add: new_callbacks_def)

text \<open>
  What belongs to one watcher among the idle sources and the calls in flight.
\<close>

lemma own_simps [simp]:
  "own a [] = []"
  "own a (xs @ ys) = own a xs @ own a ys"
  by (simp_all add: own_def)

lemma own_tagged: "tagged a acts \<Longrightarrow> own a (idle_of acts) = idle_of acts"
  by (simp add: own_def tagged_def)

lemma own_other: "tagged b acts \<Longrightarrow> a \<noteq> b \<Longrightarrow> own a (idle_of acts) = []"
  by (auto simp: own_def tagged_def filter_empty_conv)

lemma calls_in_simps [simp]:
  "calls_in a [] = []"
  "calls_in a (xs @ ys) = calls_in a xs @ calls_in a ys"
  "calls_in a (map (Pair b) ks) = (if a = b then ks else [])"
  by (simp_all add: calls_in_def filter_map comp_def)

lemma calls_in_Cons [simp]:
  "calls_in a ((b, k) # ps) = (if a = b then k # calls_in a ps else calls_in a ps)"
  by (simp add: calls_in_def)

lemma calls_in_mem: "(a, k) \<in> set ps \<longleftrightarrow> k \<in> set (calls_in a ps)"
  by (force simp: calls_in_def)

lemma calls_in_remove1_other: "a \<noteq> b \<Longrightarrow> calls_in a (remove1 (b, k) ps) = calls_in a ps"
  by (induction ps) (auto simp: calls_in_def)

lemma calls_in_remove1: "calls_in a (remove1 (a, k) ps) = remove1 k (calls_in a ps)"
  by (induction ps) (auto simp: calls_in_def)

lemma length_remove1_mem: "x \<in> set xs \<Longrightarrow> int (length (remove1 x xs)) = int (length xs) - 1"
  by (induction xs) (auto simp: length_remove1)

lemma take_first_Some:
  "take_first a xs = Some (d, rest) \<Longrightarrow>
     client_chd d = a \<and> own a xs = d # own a rest \<and> (\<forall>b. b \<noteq> a \<longrightarrow> own b rest = own b xs)"
  by (induction xs arbitrary: rest) (auto simp: own_def split: if_splits option.splits)

text \<open>
  Every idle source a callback of the client at \<open>a\<close> attaches refers to that client,
  whatever its handlers are.
\<close>

lemma tagged_simps [simp]:
  "tagged a []"
  "tagged a (xs @ ys) = (tagged a xs \<and> tagged a ys)"
  by (auto simp: tagged_def idle_of_append)

lemma tagged_quiet: "idle_of acts = [] \<Longrightarrow> tagged a acts"
  by (simp add: tagged_def)

lemma tagged_Cons [simp]:
  "tagged a (x # xs)
     = ((case x of Idle_attach d m \<Rightarrow> client_chd d = a | _ \<Rightarrow> True) \<and> tagged a xs)"
  by (cases x) (simp_all add: tagged_def)

lemma call_vanished_handler_tagged:
  "call_vanished_handler tdc a c ig = (c', acts) \<Longrightarrow> tagged a acts"
  by (auto simp: call_vanished_handler_def do_call_def schedule_call_in_idle_def
        actually_do_call_def tagged_def idle_of_append Let_def
      split: if_splits option.splits)

lemma call_appeared_handler_tagged:
  "call_appeared_handler tdc a c = (c', acts) \<Longrightarrow> tagged a acts"
  by (auto simp: call_appeared_handler_def do_call_def schedule_call_in_idle_def
        actually_do_call_def tagged_def idle_of_append Let_def
      split: if_splits option.splits)

lemma invoke_get_name_owner_tagged:
  "invoke_get_name_owner c = (c', acts) \<Longrightarrow> tagged a acts"
  by (auto simp: invoke_get_name_owner_def tagged_def split: option.splits)

lemma has_connection_tagged:
  "has_connection c hid sid = (c', acts) \<Longrightarrow> tagged a acts"
  by (auto simp: has_connection_def invoke_get_name_owner_def tagged_def Let_def
      split: option.splits if_splits)

lemma client_unref_tagged: "client_unref c = (co, acts) \<Longrightarrow> tagged a acts"
  by (rule tagged_quiet) (simp add: client_unref_quiet)

lemma call_finish_tagged:
  "g_dbus_connection_call_finish x res = (result, a0) \<Longrightarrow> tagged a a0"
  by (rule tagged_quiet) (simp add: call_finish_quiet)

lemma connection_get_cb_tagged:
  "connection_get_cb tdc a c res hid sid = (co, acts) \<Longrightarrow> tagged a acts"
  by (auto simp: connection_get_cb_def Let_def split: prod.splits if_splits
      dest: call_vanished_handler_tagged has_connection_tagged client_unref_tagged)

lemma get_name_owner_cb_tagged:
  "get_name_owner_cb tdc a c res = (co, acts) \<Longrightarrow> tagged a acts"
  by (auto simp: get_name_owner_cb_def Let_def split: prod.splits if_splits option.splits
      dest: call_vanished_handler_tagged call_appeared_handler_tagged client_unref_tagged
        call_finish_tagged)

lemma start_service_by_name_cb_tagged:
  "start_service_by_name_cb tdc a c res = (co, acts) \<Longrightarrow> tagged a acts"
  by (auto simp: start_service_by_name_cb_def Let_def
      split: prod.splits if_splits option.splits
      dest: call_vanished_handler_tagged invoke_get_name_owner_tagged client_unref_tagged
        call_finish_tagged)

lemma on_connection_disconnected_tagged:
  "on_connection_disconnected tdc a c = (c', acts) \<Longrightarrow> tagged a acts"
  by (auto simp: on_connection_disconnected_def Let_def
      split: prod.splits if_splits option.splits
      dest: call_vanished_handler_tagged)

lemma on_name_owner_changed_tagged:
  "on_name_owner_changed tdc a c s p i n old new = (c', acts) \<Longrightarrow> tagged a acts"
  by (auto simp: on_name_owner_changed_def Let_def split: prod.splits if_splits
      dest: call_vanished_handler_tagged call_appeared_handler_tagged)


subsection \<open>Occurrences\<close>

text \<open>
  What an event of the watcher at \<open>a\<close> does, other than an unwatch and an idle dispatch:
  it runs one callback on the client, whose actions are stored; a completion removes its
  call from the calls in flight and releases one reference, a signal does neither. For a
  client with both handlers the callback is as \<open>effect_ok\<close>, \<open>refs_ok\<close> and
  \<open>answers_ok\<close> say, and an event that settles the first answer leaves \<open>previous_call\<close>
  set.
\<close>

lemma occur_handled:
  assumes "occur g (At a tdc e) w = Some w'"
    and "\<not> is_unwatch e" and "e \<noteq> Idle_dispatch"
  shows "\<exists>c co acts d ps.
           heap w a = Some c
           \<and> w' = store a (co, acts) (w\<lparr>pending := ps\<rparr>)
           \<and> tagged a acts
           \<and> ((d = 0 \<and> ps = pending w)
              \<or> (d = 1 \<and> (\<exists>k. (a, k) \<in> set (pending w) \<and> ps = remove1 (a, k) (pending w))))
           \<and> (name_appeared_handler c \<noteq> None \<and> name_vanished_handler c \<noteq> None \<longrightarrow>
                effect_ok tdc c co acts \<and> refs_ok d c co acts \<and> answers_ok c co acts
                \<and> (settles e
                     \<and> (START_SERVICE_BY_NAME \<in> set (calls_in a (pending w)) \<longrightarrow> located c)
                   \<longrightarrow> (\<forall>c'. co = Some c' \<longrightarrow> previous_call c' \<noteq> PREVIOUS_CALL_NONE)))"
proof (cases e)
  case (Bus_get_finished res hid sid)
  with assms(1) obtain c where h: "heap w a = Some c" and k: "(a, BUS_GET) \<in> set (pending w)"
    and w': "w' = store a (connection_get_cb tdc a c res hid sid)
                    (w\<lparr>pending := remove1 (a, BUS_GET) (pending w)\<rparr>)"
    by (auto split: option.splits if_splits)
  obtain co acts where r: "connection_get_cb tdc a c res hid sid = (co, acts)"
    by (cases "connection_get_cb tdc a c res hid sid")
  have "name_appeared_handler c \<noteq> None \<and> name_vanished_handler c \<noteq> None \<longrightarrow>
          effect_ok tdc c co acts \<and> refs_ok 1 c co acts \<and> answers_ok c co acts
          \<and> (settles e \<longrightarrow> (\<forall>c'. co = Some c' \<longrightarrow> previous_call c' \<noteq> PREVIOUS_CALL_NONE))"
    using connection_get_cb_effect [OF r] Bus_get_finished by simp
  with h k w' r connection_get_cb_tagged [OF r] show ?thesis
    by (intro exI [of _ c] exI [of _ co] exI [of _ acts] exI [of _ 1]
          exI [of _ "remove1 (a, BUS_GET) (pending w)"]) auto
next
  case (Start_service_finished res)
  with assms(1) obtain c where h: "heap w a = Some c"
    and k: "(a, START_SERVICE_BY_NAME) \<in> set (pending w)"
    and w': "w' = store a (start_service_by_name_cb tdc a c res)
                    (w\<lparr>pending := remove1 (a, START_SERVICE_BY_NAME) (pending w)\<rparr>)"
    by (auto split: option.splits if_splits)
  obtain co acts where r: "start_service_by_name_cb tdc a c res = (co, acts)"
    by (cases "start_service_by_name_cb tdc a c res")
  have "effect_ok tdc c co acts \<and> refs_ok 1 c co acts \<and> answers_ok c co acts
          \<and> (settles e \<and> located c
               \<longrightarrow> (\<forall>c'. co = Some c' \<longrightarrow> previous_call c' \<noteq> PREVIOUS_CALL_NONE))"
    if hs: "name_appeared_handler c \<noteq> None" "name_vanished_handler c \<noteq> None"
  proof -
    note e = start_service_by_name_cb_effect [OF r hs]
    have "previous_call c' \<noteq> PREVIOUS_CALL_NONE"
      if "settles e" "located c" "co = Some c'" for c'
    proof (cases "previous_call c = PREVIOUS_CALL_NONE")
      case False
      with e(3) that(3) show ?thesis by (simp add: answers_ok_def)
    next
      case True
      with that(2) have cn: "connection c \<noteq> None" by (simp add: located_def)
      from that(1) Start_service_finished obtain r' where "res = Some r'" "r' \<noteq> 1" "r' \<noteq> 2"
        by (cases res) auto
      with e(4) [OF that(3)] cn show ?thesis by simp
    qed
    with e(1-3) show ?thesis by blast
  qed
  moreover from k have "START_SERVICE_BY_NAME \<in> set (calls_in a (pending w))"
    by (simp add: calls_in_mem)
  ultimately
  have "name_appeared_handler c \<noteq> None \<and> name_vanished_handler c \<noteq> None \<longrightarrow>
          effect_ok tdc c co acts \<and> refs_ok 1 c co acts \<and> answers_ok c co acts
          \<and> (settles e
               \<and> (START_SERVICE_BY_NAME \<in> set (calls_in a (pending w)) \<longrightarrow> located c)
             \<longrightarrow> (\<forall>c'. co = Some c' \<longrightarrow> previous_call c' \<noteq> PREVIOUS_CALL_NONE))"
    by blast
  with h k w' r start_service_by_name_cb_tagged [OF r] show ?thesis
    by (intro exI [of _ c] exI [of _ co] exI [of _ acts] exI [of _ 1]
          exI [of _ "remove1 (a, START_SERVICE_BY_NAME) (pending w)"]) auto
next
  case (Get_name_owner_finished res)
  with assms(1) obtain c where h: "heap w a = Some c"
    and k: "(a, GET_NAME_OWNER) \<in> set (pending w)"
    and w': "w' = store a (get_name_owner_cb tdc a c res)
                    (w\<lparr>pending := remove1 (a, GET_NAME_OWNER) (pending w)\<rparr>)"
    by (auto split: option.splits if_splits)
  obtain co acts where r: "get_name_owner_cb tdc a c res = (co, acts)"
    by (cases "get_name_owner_cb tdc a c res")
  have "name_appeared_handler c \<noteq> None \<and> name_vanished_handler c \<noteq> None \<longrightarrow>
          effect_ok tdc c co acts \<and> refs_ok 1 c co acts \<and> answers_ok c co acts
          \<and> (\<forall>c'. co = Some c' \<longrightarrow> previous_call c' \<noteq> PREVIOUS_CALL_NONE)"
    using get_name_owner_cb_effect [OF r] by simp
  with h k w' r get_name_owner_cb_tagged [OF r] show ?thesis
    by (intro exI [of _ c] exI [of _ co] exI [of _ acts] exI [of _ 1]
          exI [of _ "remove1 (a, GET_NAME_OWNER) (pending w)"]) auto
next
  case (Name_owner_changed sn op' inn n old new)
  with assms(1) obtain c where h: "heap w a = Some c" by (auto split: option.splits)
  obtain c' acts where r: "on_name_owner_changed tdc a c sn op' inn n old new = (c', acts)"
    by (cases "on_name_owner_changed tdc a c sn op' inn n old new")
  with assms(1) h Name_owner_changed have w': "w' = store a (Some c', acts) w"
    by (auto split: if_splits)
  have "name_appeared_handler c \<noteq> None \<and> name_vanished_handler c \<noteq> None \<longrightarrow>
          effect_ok tdc c (Some c') acts \<and> refs_ok 0 c (Some c') acts
          \<and> answers_ok c (Some c') acts"
    using moves_keep [OF on_name_owner_changed_moves [OF r]] by simp
  with h w' Name_owner_changed on_name_owner_changed_tagged [OF r] show ?thesis
    by (intro exI [of _ c] exI [of _ "Some c'"] exI [of _ acts] exI [of _ 0]
          exI [of _ "pending w"]) auto
next
  case Connection_closed
  with assms(1) obtain c where h: "heap w a = Some c" by (auto split: option.splits)
  obtain c' acts where r: "on_connection_disconnected tdc a c = (c', acts)"
    by (cases "on_connection_disconnected tdc a c")
  with assms(1) h Connection_closed have w': "w' = store a (Some c', acts) w"
    by (auto split: if_splits)
  have "name_appeared_handler c \<noteq> None \<and> name_vanished_handler c \<noteq> None \<longrightarrow>
          effect_ok tdc c (Some c') acts \<and> refs_ok 0 c (Some c') acts
          \<and> answers_ok c (Some c') acts \<and> previous_call c' \<noteq> PREVIOUS_CALL_NONE"
    using moves_keep [OF on_connection_disconnected_moves(1) [OF r]]
      on_connection_disconnected_moves(2) [OF r] by simp
  with h w' on_connection_disconnected_tagged [OF r] show ?thesis
    by (intro exI [of _ c] exI [of _ "Some c'"] exI [of _ acts] exI [of _ 0]
          exI [of _ "pending w"]) auto
next
  case (Unwatch i)
  with assms(2) show ?thesis by simp
next
  case Idle_dispatch
  with assms(3) show ?thesis by simp
qed

text \<open>
  An idle dispatch calls the handler of the first source of the client and releases one
  reference; an unwatch either logs a message, or cancels the client the id refers to,
  removes the id and releases one reference.
\<close>

lemma dispatch_idle_Some:
  assumes "dispatch_idle a w = Some w'"
  shows "\<exists>c data rest co acts.
           heap w a = Some c \<and> take_first a (idle w) = Some (data, rest)
           \<and> w' = store a (co, acts) (w\<lparr>idle := rest\<rparr>)
           \<and> idle_of acts = [] \<and> async_of acts = []
           \<and> (name_appeared_handler c \<noteq> None \<and> name_vanished_handler c \<noteq> None
                \<longrightarrow> callbacks acts = [call_type data])
           \<and> co = (if ref_count c = 1 then None else Some (c\<lparr>ref_count := ref_count c - 1\<rparr>))"
proof -
  from assms obtain data rest c where t: "take_first a (idle w) = Some (data, rest)"
    and h: "heap w a = Some c"
    by (auto simp: dispatch_idle_def split: option.splits)
  obtain co a2 where f: "call_handler_data_free c data = (co, a2)"
    by (cases "call_handler_data_free c data")
  with assms t h have w': "w' = store a (co, call_in_idle_cb c data @ a2) (w\<lparr>idle := rest\<rparr>)"
    by (simp add: dispatch_idle_def)
  have cb: "idle_of (call_in_idle_cb c data) = []" "async_of (call_in_idle_cb c data) = []"
    by (cases "call_type data";
        auto simp: call_in_idle_cb_def actually_do_call_def split: option.splits)+
  have cb': "callbacks (call_in_idle_cb c data) = [call_type data]"
    if "name_appeared_handler c \<noteq> None" "name_vanished_handler c \<noteq> None"
    using that
    by (cases "call_type data";
        auto simp: call_in_idle_cb_def actually_do_call_def split: option.splits)
  from f have q: "callbacks a2 = []" "idle_of a2 = []" "async_of a2 = []"
    and co: "co = (if ref_count c = 1 then None else Some (c\<lparr>ref_count := ref_count c - 1\<rparr>))"
    by (auto simp: call_handler_data_free_def client_unref_def Let_def callbacks_append
          idle_of_append async_of_append split: prod.splits option.splits if_splits)
  from h t w' cb cb' q co show ?thesis
    by (intro exI [of _ c] exI [of _ data] exI [of _ rest] exI [of _ co]
          exI [of _ "call_in_idle_cb c data @ a2"])
       (simp add: callbacks_append idle_of_append async_of_append)
qed

lemma unwatch_Some:
  assumes "g_bus_unwatch_name j w = Some w'"
  shows "(\<exists>x. w' = w\<lparr>trace := trace w @ [x]\<rparr> \<and> callbacks [x] = []
              \<and> (j = 0 \<or> lookup_client w j = None))
       \<or> (\<exists>b c co acts.
             j \<noteq> 0 \<and> lookup_client w j = Some b \<and> heap w b = Some c
             \<and> w' = store b (co, acts)
                      (w\<lparr>map_id_to_client :=
                           map_option (\<lambda>m. m(j := None)) (map_id_to_client w)\<rparr>)
             \<and> callbacks acts = [] \<and> idle_of acts = [] \<and> async_of acts = []
             \<and> co = (if ref_count c = 1 then None
                     else Some (c\<lparr>cancelled := True, ref_count := ref_count c - 1\<rparr>)))"
proof (cases "j = 0 \<or> lookup_client w j = None")
  case True
  with assms show ?thesis
    by (auto simp: g_bus_unwatch_name_def word_gt_0 split: if_splits)
next
  case False
  then obtain b where b: "lookup_client w j = Some b" and pos: "j \<noteq> 0" by auto
  with assms obtain c where c: "heap w b = Some c"
    by (auto simp: g_bus_unwatch_name_def word_gt_0 split: option.splits)
  obtain co acts where un: "client_unref (c\<lparr>cancelled := True\<rparr>) = (co, acts)"
    by (cases "client_unref (c\<lparr>cancelled := True\<rparr>)")
  from assms b pos c un
  have w': "w' = store b (co, acts)
                  (w\<lparr>map_id_to_client := map_option (\<lambda>m. m(j := None)) (map_id_to_client w)\<rparr>)"
    by (simp add: g_bus_unwatch_name_def Let_def word_gt_0)
  from un have "co = (if ref_count c = 1 then None
                      else Some (c\<lparr>cancelled := True, ref_count := ref_count c - 1\<rparr>))"
    by (auto simp: client_unref_def Let_def split: if_splits)
  with b pos c w' client_unref_quiet [OF un] show ?thesis by blast
qed

lemma lookup_client_removed [simp]:
  "lookup_client (w\<lparr>map_id_to_client := map_option (\<lambda>m. m(j := None)) (map_id_to_client w)\<rparr>) k
     = (if k = j then None else lookup_client w k)"
  by (simp add: lookup_client_def split: option.splits)

lemma lookup_client_inserted [simp]:
  "lookup_client (hash_table_insert i b w) k = (if k = i then Some b else lookup_client w k)"
  by (simp add: lookup_client_def hash_table_insert_def split: option.splits)

lemma hash_table_insert_fields [simp]:
  "heap (hash_table_insert i a w) = heap w"
  "idle (hash_table_insert i a w) = idle w"
  "trace (hash_table_insert i a w) = trace w"
  "pending (hash_table_insert i a w) = pending w"
  by (simp_all add: hash_table_insert_def)

text \<open>
  The events of other watchers and the registrations at other addresses leave a watcher
  alone.
\<close>

lemma untouched_refl: "untouched a w w"
  by (simp add: untouched_def)

lemma frame_handled:
  assumes "occur g (At b tdc e) w = Some w'"
    and "\<not> is_unwatch e" and "a \<noteq> b"
  shows "untouched a w w'"
proof (cases "e = Idle_dispatch")
  case False
  from occur_handled [OF assms(1,2) False]
  obtain c co acts d ps where w': "w' = store b (co, acts) (w\<lparr>pending := ps\<rparr>)"
    and t: "tagged b acts"
    and ps: "ps = pending w \<or> (\<exists>k. ps = remove1 (b, k) (pending w))"
    by blast
  from ps assms(3) have "calls_in a ps = calls_in a (pending w)"
    by (auto simp: calls_in_remove1_other)
  with w' assms(3) own_other [OF t assms(3)] show ?thesis
    by (simp add: untouched_def calls_of_def)
next
  case True
  with assms(1) have "dispatch_idle b w = Some w'" by simp
  from dispatch_idle_Some [OF this]
  obtain data rest co acts where t: "take_first b (idle w) = Some (data, rest)"
    and w': "w' = store b (co, acts) (w\<lparr>idle := rest\<rparr>)"
    and q: "idle_of acts = []" "async_of acts = []"
    by blast
  from take_first_Some [OF t] assms(3) have "own a rest = own a (idle w)" by simp
  with w' q assms(3) show ?thesis
    by (simp add: untouched_def calls_of_def)
qed

lemma has_connection_quiet:
  "has_connection c hid sid = (c', acts) \<Longrightarrow> callbacks acts = [] \<and> idle_of acts = []"
  by (auto simp: has_connection_def invoke_get_name_owner_def Let_def
      split: if_splits option.splits)

lemma frame_watch:
  assumes "a \<noteq> b"
  shows "untouched a w (snd (g_bus_watch_name g tdc b bt nm fl ap va ud udf w))"
    and "untouched a w (snd (g_bus_watch_name_on_connection g tdc b cn hid sid nm fl ap va ud
                               udf w))"
proof -
  show "untouched a w (snd (g_bus_watch_name g tdc b bt nm fl ap va ud udf w))"
    using assms
    by (simp add: g_bus_watch_name_def Let_def untouched_def calls_of_def async_of_append
          idle_of_append split: option.split)
  obtain c' acts where h: "has_connection (new_client (next_global_id w) nm fl ap va ud udf tdc
                                              \<lparr>connection := cn\<rparr>) hid sid = (c', acts)"
    by (cases "has_connection (new_client (next_global_id w) nm fl ap va ud udf tdc
                                 \<lparr>connection := cn\<rparr>) hid sid")
  from has_connection_quiet [OF h] have q: "idle_of acts = []" by simp
  show "untouched a w (snd (g_bus_watch_name_on_connection g tdc b cn hid sid nm fl ap va ud
                               udf w))"
    using assms h q
    by (simp add: g_bus_watch_name_on_connection_def Let_def untouched_def calls_of_def
          async_of_append idle_of_append split: option.split)
qed

lemma frame_occur:
  assumes "occur g x w = Some w'"
    and "\<not> handled_at a x" and "\<not> registers a x" and "\<forall>j. \<not> unwatches j x"
  shows "untouched a w w'"
proof (cases x)
  case (At b tdc e)
  with assms(4) have "\<not> is_unwatch e" by (cases e) auto
  with assms(1,2) At show ?thesis using frame_handled by auto
next
  case (Watch_name tdc b bt nm fl ap va ud udf)
  with assms(1,3) show ?thesis
    using frame_watch(1) [of a b] by (auto split: option.splits)
next
  case (Watch_name_on_connection tdc b cn hid sid nm fl ap va ud udf)
  with assms(1,3) show ?thesis
    using frame_watch(2) [of a b] by (auto split: option.splits)
qed


subsection \<open>Preservation of the invariant\<close>

text \<open>
  The invariant is preserved by every occurrence that is no registration at the address
  of the watcher, provided that a call is made at once only when no call of the watcher
  is queued.
\<close>

lemma inv_same:
  assumes "watcher_inv a ds w" and "heap w' a = heap w a" and "queued_to a w' = queued_to a w"
  shows "watcher_inv a ds w'"
  using assms by (auto simp: watcher_inv_def split: option.splits)

lemma inv_frame:
  assumes "watcher_inv a ds w" and "untouched a w w'"
  shows "watcher_inv a ds w'"
  using assms(2) by (intro inv_same [OF assms(1)]) (simp_all add: untouched_def queued_to_def)

lemma unwatches_At: "unwatches j x \<Longrightarrow> \<exists>b tdc. x = At b tdc (Unwatch j)"
  by (induction j x rule: unwatches.induct) auto

lemma inv_store:
  assumes inv: "watcher_inv a ds w"
    and h: "heap w a = Some c"
    and e: "effect_ok tdc c co acts"
    and t: "tagged a acts"
    and ord: "callbacks acts \<noteq> [] \<longrightarrow> queued_to a w = []"
  shows "watcher_inv a (ds @ callbacks acts) (store a (co, acts) (w\<lparr>pending := ps\<rparr>))"
proof -
  define seq where "seq = ds @ queued_to a w"
  define w' where "w' = store a (co, acts) (w\<lparr>pending := ps\<rparr>)"
  from inv h have hs: "name_appeared_handler c \<noteq> None" "name_vanished_handler c \<noteq> None"
    and fol: "follows PREVIOUS_CALL_NONE seq"
    and prev: "cancelled c \<or> previous_call c = last_call PREVIOUS_CALL_NONE seq"
    by (auto simp: watcher_inv_def seq_def)
  from e have m1: "tdc = main_context c \<Longrightarrow> idle_of acts = []"
    and m2: "tdc \<noteq> main_context c \<Longrightarrow> callbacks acts = []"
    and ch: "if cancelled c then requested acts = [] else follows (previous_call c) (requested acts)"
    by (auto simp: effect_ok_def)
  have q: "queued_to a w' = queued_to a w @ map call_type (idle_of acts)"
    using own_tagged [OF t] by (simp add: w'_def queued_to_def)
  have seq': "(ds @ callbacks acts) @ queued_to a w' = seq @ requested acts"
  proof (cases "callbacks acts = []")
    case True
    then show ?thesis by (simp add: q seq_def requested_def)
  next
    case False
    with ord m2 have "queued_to a w = []" "tdc = main_context c" by auto
    with m1 show ?thesis by (simp add: q seq_def requested_def)
  qed
  have fol': "follows PREVIOUS_CALL_NONE (seq @ requested acts)"
    using fol prev ch by (auto simp: follows_append split: if_splits)
  have hp: "heap w' a = co" by (simp add: w'_def)
  show ?thesis
  proof (cases co)
    case None
    with hp fol' show ?thesis
      unfolding watcher_inv_def w'_def [symmetric] seq' by simp
  next
    case (Some c')
    with e have st: "name_appeared_handler c' = name_appeared_handler c"
      "name_vanished_handler c' = name_vanished_handler c"
      "cancelled c' = cancelled c"
      "cancelled c \<or> previous_call c' = last_call (previous_call c) (requested acts)"
      by (auto simp: effect_ok_def)
    have "cancelled c' \<or> previous_call c' = last_call PREVIOUS_CALL_NONE (seq @ requested acts)"
      using st prev by (auto simp: last_call_append)
    with hp Some fol' st hs show ?thesis
      unfolding watcher_inv_def w'_def [symmetric] seq' by simp
  qed
qed

lemma inv_dispatch:
  assumes inv: "watcher_inv a ds w" and s: "dispatch_idle a w = Some w'"
  shows "watcher_inv a (ds @ new_callbacks w w') w'"
proof -
  from dispatch_idle_Some [OF s]
  obtain c data rest co acts where h: "heap w a = Some c"
    and t: "take_first a (idle w) = Some (data, rest)"
    and w': "w' = store a (co, acts) (w\<lparr>idle := rest\<rparr>)"
    and q: "idle_of acts = []"
    and cb: "name_appeared_handler c \<noteq> None \<and> name_vanished_handler c \<noteq> None
               \<longrightarrow> callbacks acts = [call_type data]"
    and co: "co = (if ref_count c = 1 then None else Some (c\<lparr>ref_count := ref_count c - 1\<rparr>))"
    by blast
  from inv h have hs: "name_appeared_handler c \<noteq> None" "name_vanished_handler c \<noteq> None"
    and fol: "follows PREVIOUS_CALL_NONE (ds @ queued_to a w)"
    and prev: "cancelled c \<or> previous_call c = last_call PREVIOUS_CALL_NONE (ds @ queued_to a w)"
    by (auto simp: watcher_inv_def)
  from hs cb have cb': "callbacks acts = [call_type data]" by simp
  have n: "new_callbacks w w' = [call_type data]"
    using cb' by (simp add: w' new_callbacks_def)
  from take_first_Some [OF t] have o: "own a (idle w) = data # own a rest" by simp
  have "queued_to a w' = map call_type (own a rest)"
    using q by (simp add: w' queued_to_def)
  with n o have seq: "(ds @ new_callbacks w w') @ queued_to a w' = ds @ queued_to a w"
    by (simp add: queued_to_def)
  have hp: "heap w' a = co" by (simp add: w')
  show ?thesis
    unfolding watcher_inv_def seq using fol prev hs hp co by simp
qed

lemma inv_unwatch:
  assumes inv: "watcher_inv a ds w" and u: "g_bus_unwatch_name j w = Some w'"
  shows "watcher_inv a ds w'" and "new_callbacks w w' = []"
proof -
  from unwatch_Some [OF u]
  consider (miss) x where "w' = w\<lparr>trace := trace w @ [x]\<rparr>" "callbacks [x] = []"
    | (hit) b c co acts where "heap w b = Some c"
        "w' = store b (co, acts)
                (w\<lparr>map_id_to_client := map_option (\<lambda>m. m(j := None)) (map_id_to_client w)\<rparr>)"
        "callbacks acts = []" "idle_of acts = []"
        "co = (if ref_count c = 1 then None
               else Some (c\<lparr>cancelled := True, ref_count := ref_count c - 1\<rparr>))"
    by blast
  then have "watcher_inv a ds w' \<and> new_callbacks w w' = []"
  proof cases
    case miss
    then have "heap w' a = heap w a" "queued_to a w' = queued_to a w"
      "new_callbacks w w' = []"
      by (simp_all add: queued_to_def new_callbacks_def)
    with inv show ?thesis by (simp add: inv_same)
  next
    case hit
    note h = hit(1) and w' = hit(2) and q = hit(3,4) and co = hit(5)
    have n: "new_callbacks w w' = []"
      using q by (simp add: w' new_callbacks_def)
    have qd: "queued_to a w' = queued_to a w"
      using q by (simp add: w' queued_to_def)
    have "watcher_inv a ds w'"
    proof (cases "b = a")
      case False
      then have "heap w' a = heap w a" by (simp add: w')
      with inv qd show ?thesis by (simp add: inv_same)
    next
      case True
      with h co have "heap w' a = (if ref_count c = 1 then None
                     else Some (c\<lparr>cancelled := True, ref_count := ref_count c - 1\<rparr>))"
        by (simp add: w')
      with inv h qd True show ?thesis by (simp add: watcher_inv_def)
    qed
    with n show ?thesis by simp
  qed
  then show "watcher_inv a ds w'" and "new_callbacks w w' = []" by simp_all
qed

lemma inv_occur:
  assumes inv: "watcher_inv a ds w" and s: "occur g x w = Some w'"
    and nr: "\<not> registers a x"
    and ord: "handled_at a x \<and> \<not> is_idle_dispatch x \<and> new_callbacks w w' \<noteq> []
                \<longrightarrow> queued_to a w = []"
  shows "watcher_inv a (ds @ (if handled_at a x then new_callbacks w w' else [])) w'"
proof (cases "\<exists>j. unwatches j x")
  case True
  then obtain b tdc j where x: "x = At b tdc (Unwatch j)"
    using unwatches_At by blast
  with s have "g_bus_unwatch_name j w = Some w'" by simp
  from inv_unwatch [OF inv this] show ?thesis by simp
next
  case False
  show ?thesis
  proof (cases "handled_at a x")
    case False
    with frame_occur [OF s False nr] \<open>\<not> (\<exists>j. unwatches j x)\<close> inv show ?thesis
      by (simp add: inv_frame)
  next
    case True
    then obtain tdc e where x: "x = At a tdc e" by (cases x) auto
    with \<open>\<not> (\<exists>j. unwatches j x)\<close> have nu: "\<not> is_unwatch e" by (cases e) auto
    show ?thesis
    proof (cases "e = Idle_dispatch")
      case True
      with s x have "dispatch_idle a w = Some w'" by simp
      from inv_dispatch [OF inv this] x show ?thesis by simp
    next
      case False
      from occur_handled [OF s [unfolded x] nu False]
      obtain c co acts d ps where h: "heap w a = Some c"
        and w': "w' = store a (co, acts) (w\<lparr>pending := ps\<rparr>)"
        and t: "tagged a acts"
        and e: "name_appeared_handler c \<noteq> None \<and> name_vanished_handler c \<noteq> None
                  \<longrightarrow> effect_ok tdc c co acts"
        by blast
      from inv h e have e': "effect_ok tdc c co acts" by (simp add: watcher_inv_def)
      have n: "new_callbacks w w' = callbacks acts"
        by (simp add: w' new_callbacks_def)
      from False have "\<not> is_idle_dispatch x" unfolding x by (cases e) auto
      with ord x n have "callbacks acts \<noteq> [] \<longrightarrow> queued_to a w = []" by simp
      from inv_store [OF inv h e' t this, of ps] x n w' show ?thesis by simp
    qed
  qed
qed

lemma inv_run:
  assumes "watcher_inv a ds w" and "\<not> list_ex (registers a) xs" and "in_order g a xs w"
  shows "follows PREVIOUS_CALL_NONE (ds @ delivered_to g a xs w)"
  using assms
proof (induction xs arbitrary: ds w)
  case Nil
  then show ?case by (simp add: watcher_inv_def follows_append)
next
  case (Cons x xs)
  show ?case
  proof (cases "occur g x w")
    case None
    with Cons.prems(1) show ?thesis by (simp add: watcher_inv_def follows_append)
  next
    case (Some w')
    with Cons.prems have nr: "\<not> registers a x" "\<not> list_ex (registers a) xs"
      and ord: "handled_at a x \<and> \<not> is_idle_dispatch x \<and> new_callbacks w w' \<noteq> []
                  \<longrightarrow> queued_to a w = []"
      and io: "in_order g a xs w'"
      by simp_all
    from inv_occur [OF Cons.prems(1) Some nr(1) ord]
    have "watcher_inv a (ds @ (if handled_at a x then new_callbacks w w' else [])) w'" .
    from Cons.IH [OF this nr(2) io] Some show ?thesis by simp
  qed
qed

subsection \<open>Registration\<close>

text \<open>
  The world after a registration. A registration that is refused leaves the address
  unused.
\<close>

lemma new_client_fields [simp]:
  "name_appeared_handler (new_client i nm fl ap va ud udf ctx) = ap"
  "name_vanished_handler (new_client i nm fl ap va ud udf ctx) = va"
  "main_context (new_client i nm fl ap va ud udf ctx) = ctx"
  "cancelled (new_client i nm fl ap va ud udf ctx) = False"
  "previous_call (new_client i nm fl ap va ud udf ctx) = PREVIOUS_CALL_NONE"
  "ref_count (new_client i nm fl ap va ud udf ctx) = 1"
  "connection (new_client i nm fl ap va ud udf ctx) = None"
  "client_id (new_client i nm fl ap va ud udf ctx) = i"
  by (simp_all add: new_client_def)

lemma client_ref_fields [simp]:
  "name_appeared_handler (client_ref c) = name_appeared_handler c"
  "name_vanished_handler (client_ref c) = name_vanished_handler c"
  "main_context (client_ref c) = main_context c"
  "cancelled (client_ref c) = cancelled c"
  "previous_call (client_ref c) = previous_call c"
  "ref_count (client_ref c) = ref_count c + 1"
  "connection (client_ref c) = connection c"
  by (simp_all add: client_ref_def)

lemma watch_world:
  assumes "g nm"
  shows "heap (snd (g_bus_watch_name g ctx a bt nm fl ap va ud udf w0)) a
           = Some (client_ref (new_client (next_global_id w0) nm fl ap va ud udf ctx))"
    and "idle (snd (g_bus_watch_name g ctx a bt nm fl ap va ud udf w0)) = idle w0"
    and "pending (snd (g_bus_watch_name g ctx a bt nm fl ap va ud udf w0))
           = pending w0 @ [(a, BUS_GET)]"
    and "lookup_client (snd (g_bus_watch_name g ctx a bt nm fl ap va ud udf w0)) j
           = (if j = next_global_id w0 then Some a else lookup_client w0 j)"
    and "fst (g_bus_watch_name g ctx a bt nm fl ap va ud udf w0) = next_global_id w0"
  using assms
  by (simp_all add: g_bus_watch_name_def Let_def idle_of_append async_of_append
        split: option.split)

lemma watch_refused:
  assumes "\<not> g nm \<or> cn = None"
  shows "\<not> g nm \<Longrightarrow> untouched a w0 (snd (g_bus_watch_name g ctx a bt nm fl ap va ud udf w0))"
    and "untouched a w0 (snd (g_bus_watch_name_on_connection g ctx a cn hid sid nm fl ap va ud
                                udf w0))"
  using assms
  by (auto simp: g_bus_watch_name_def g_bus_watch_name_on_connection_def untouched_def
        calls_of_def)

lemma watch_on_connection_world:
  assumes "g nm" and "cn \<noteq> None"
    and "has_connection (new_client (next_global_id w0) nm fl ap va ud udf ctx
                           \<lparr>connection := cn\<rparr>) hid sid = (c', acts)"
  shows "heap (snd (g_bus_watch_name_on_connection g ctx a cn hid sid nm fl ap va ud udf w0)) a
           = Some c'"
    and "idle (snd (g_bus_watch_name_on_connection g ctx a cn hid sid nm fl ap va ud udf w0))
           = idle w0"
    and "pending (snd (g_bus_watch_name_on_connection g ctx a cn hid sid nm fl ap va ud udf w0))
           = pending w0 @ map (Pair a) (async_of acts)"
    and "lookup_client (snd (g_bus_watch_name_on_connection g ctx a cn hid sid nm fl ap va ud
                               udf w0)) j
           = (if j = next_global_id w0 then Some a else lookup_client w0 j)"
    and "fst (g_bus_watch_name_on_connection g ctx a cn hid sid nm fl ap va ud udf w0)
           = next_global_id w0"
proof -
  from assms(2) obtain k where k: "cn = Some k" by auto
  define pre where "pre = (case ctx of None \<Rightarrow> [] | Some m \<Rightarrow> [Main_context_ref m]) @ [Conn_ref k]"
  have pre: "callbacks pre = []" "idle_of pre = []" "async_of pre = []"
    by (simp_all add: pre_def callbacks_append idle_of_append async_of_append split: option.split)
  have w: "g_bus_watch_name_on_connection g ctx a cn hid sid nm fl ap va ud udf w0
        = (next_global_id w0, emit a (pre @ acts)
            ((hash_table_insert (next_global_id w0) a (w0\<lparr>next_global_id := next_global_id w0 + 1\<rparr>))
               \<lparr>heap := (heap w0)(a \<mapsto> c')\<rparr>))"
    using assms(1,3) by (simp add: g_bus_watch_name_on_connection_def Let_def k pre_def)
  from has_connection_quiet [OF assms(3)] pre
  show "heap (snd (g_bus_watch_name_on_connection g ctx a cn hid sid nm fl ap va ud udf w0)) a
           = Some c'"
    and "idle (snd (g_bus_watch_name_on_connection g ctx a cn hid sid nm fl ap va ud udf w0))
           = idle w0"
    and "pending (snd (g_bus_watch_name_on_connection g ctx a cn hid sid nm fl ap va ud udf w0))
           = pending w0 @ map (Pair a) (async_of acts)"
    and "lookup_client (snd (g_bus_watch_name_on_connection g ctx a cn hid sid nm fl ap va ud
                               udf w0)) j
           = (if j = next_global_id w0 then Some a else lookup_client w0 j)"
    and "fst (g_bus_watch_name_on_connection g ctx a cn hid sid nm fl ap va ud udf w0)
           = next_global_id w0"
    unfolding w by (simp_all add: callbacks_append idle_of_append async_of_append)
qed

lemma inv_unused: "unused a w \<Longrightarrow> watcher_inv a [] w"
  by (simp add: unused_def watcher_inv_def queued_to_def)

lemma inv_watch:
  assumes "unused a w0" and "appeared \<noteq> None" and "vanished \<noteq> None"
  shows "watcher_inv a []
           (snd (g_bus_watch_name g ctx a bt nm fl appeared vanished ud udf w0))"
proof (cases "g nm")
  case False
  from inv_frame [OF inv_unused [OF assms(1)] watch_refused(1) [where g = g and nm = nm]] False
  show ?thesis by simp
next
  case True
  from assms watch_world [where g = g and nm = nm, OF True, of ctx a bt fl appeared vanished ud udf w0]
  show ?thesis by (simp add: watcher_inv_def queued_to_def unused_def)
qed

lemma inv_watch_on_connection:
  assumes "unused a w0" and "appeared \<noteq> None" and "vanished \<noteq> None"
  shows "watcher_inv a []
           (snd (g_bus_watch_name_on_connection g ctx a cn hid sid nm fl appeared
                   vanished ud udf w0))"
proof (cases "g nm \<and> cn \<noteq> None")
  case False
  then have "\<not> g nm \<or> cn = None" by simp
  from inv_frame [OF inv_unused [OF assms(1)] watch_refused(2) [where g = g and nm = nm, OF this]]
  show ?thesis .
next
  case True
  let ?c = "new_client (next_global_id w0) nm fl appeared vanished ud udf ctx
              \<lparr>connection := cn\<rparr>"
  obtain c' acts where h: "has_connection ?c hid sid = (c', acts)"
    by (cases "has_connection ?c hid sid")
  from moves_has_connection [OF h, of ctx] has_connection_quiet [OF h]
  have "name_appeared_handler c' = appeared" "name_vanished_handler c' = vanished"
    "previous_call c' = PREVIOUS_CALL_NONE"
    by (simp_all add: moves_def requested_def)
  with assms True
    watch_on_connection_world [where g = g and nm = nm, OF conjunct1 [OF True] conjunct2 [OF True] h, of a]
  show ?thesis by (simp add: watcher_inv_def queued_to_def unused_def)
qed

subsection \<open>Alternation\<close>

text \<open>
  Claim C1, amended. Take a watcher registered with both handlers, by
  \<open>g_bus_watch_name\<close> or \<open>g_bus_watch_name_on_connection\<close>, at any time: in a process in
  any state \<open>w0\<close>, with any other watchers, the address \<open>a\<close> it is given being unused.
  Take any sequence of occurrences after the registration: the events of this watcher and
  of the other watchers (completion of the bus acquisition, of \<open>StartServiceByName\<close> and
  of \<open>GetNameOwner\<close>, \<open>NameOwnerChanged\<close> signals, closure of the connection, calls of
  \<open>g_bus_unwatch_name\<close>, idle dispatches), each handled under any thread-default main
  context, and registrations of other watchers (the address \<open>a\<close> names this watcher: no
  later registration is given it). If no event of the watcher invokes a handler at once
  while an earlier call of the watcher is still queued in an idle source (\<open>in_order\<close>),
  then the callbacks delivered to the watcher strictly alternate. (The condition holds
  whenever the completions and the \<open>NameOwnerChanged\<close> signals of the watcher are
  handled under the context it was registered in, wherever the closure of its connection
  is signalled: \<open>replies_on_context_in_order\<close> below.)
\<close>

theorem delivered_callbacks_alternate:
  assumes "unused a w0"
    and "appeared \<noteq> None" and "vanished \<noteq> None"
    and "w1 = snd (g_bus_watch_name is_name ctx a bt nm fl appeared vanished ud udf w0)
         \<or> w1 = snd (g_bus_watch_name_on_connection is_name ctx a cn hid sid nm fl appeared
                       vanished ud udf w0)"
    and "\<not> list_ex (registers a) occs"
    and "in_order is_name a occs w1"
  shows "alternates (delivered_to is_name a occs w1)"
proof -
  from assms(4) have "watcher_inv a [] w1"
  proof
    assume "w1 = snd (g_bus_watch_name is_name ctx a bt nm fl appeared vanished ud udf w0)"
    with assms(1-3) show ?thesis
      using inv_watch [where g = is_name and nm = nm] by simp
  next
    assume "w1 = snd (g_bus_watch_name_on_connection is_name ctx a cn hid sid nm fl appeared
                          vanished ud udf w0)"
    with assms(1-3) show ?thesis
      using inv_watch_on_connection [where g = is_name and nm = nm] by simp
  qed
  from inv_run [OF this assms(5,6)] show ?thesis
    using follows_alternates by fastforce
qed

text \<open>
  Claim C1, as stated, fails in two ways. First, for a watcher registered without an
  appeared handler (NULL is allowed), all events handled on its own context: the owner
  query finds no owner (Vanished is delivered), the name gets an owner (nothing is
  delivered, \<open>previous_call\<close> becomes Appeared), and the owner goes away (Vanished is
  delivered again); the calls are made in order. Second, for a watcher with both handlers
  whose owner query completes in a thread with another thread-default context: Appeared
  is queued in an idle source; before it is dispatched the owner changes, handled on the
  watcher's own context, so Vanished and Appeared are delivered at once; then the queued
  Appeared is dispatched. Appeared is delivered twice in a row.
\<close>

theorem delivered_callbacks_alternate_counterexample:
  "delivered_to example_is_name 1
     [At 1 None (Bus_get_finished (Some 7) 1 1),
      At 1 None (Get_name_owner_finished None),
      At 1 None (Name_owner_changed ''org.freedesktop.DBus'' ''/org/freedesktop/DBus''
                   ''org.freedesktop.DBus'' ''org.example.App'' [] '':1.6''),
      At 1 None (Name_owner_changed ''org.freedesktop.DBus'' ''/org/freedesktop/DBus''
                   ''org.freedesktop.DBus'' ''org.example.App'' '':1.6'' [])]
     (snd (g_bus_watch_name example_is_name None 1 0 ''org.example.App'' {}
             None (Some 2) 0 None initial_world))
     = [CALL_TYPE_NAME_VANISHED, CALL_TYPE_NAME_VANISHED]
   \<and> \<not> alternates [CALL_TYPE_NAME_VANISHED, CALL_TYPE_NAME_VANISHED]
   \<and> delivered_to example_is_name 1
       [At 1 None (Bus_get_finished (Some 7) 1 1),
        At 1 (Some 9) (Get_name_owner_finished (Some '':1.5'')),
        At 1 None (Name_owner_changed ''org.freedesktop.DBus'' ''/org/freedesktop/DBus''
                     ''org.freedesktop.DBus'' ''org.example.App'' '':1.5'' '':1.6''),
        At 1 None Idle_dispatch]
       (snd (g_bus_watch_name example_is_name None 1 0 ''org.example.App'' {}
               (Some 1) (Some 2) 0 None initial_world))
     = [CALL_TYPE_NAME_VANISHED, CALL_TYPE_NAME_APPEARED, CALL_TYPE_NAME_APPEARED]
   \<and> \<not> alternates [CALL_TYPE_NAME_VANISHED, CALL_TYPE_NAME_APPEARED, CALL_TYPE_NAME_APPEARED]
   \<and> in_order example_is_name 1
       [At 1 None (Bus_get_finished (Some 7) 1 1),
        At 1 None (Get_name_owner_finished None),
        At 1 None (Name_owner_changed ''org.freedesktop.DBus'' ''/org/freedesktop/DBus''
                     ''org.freedesktop.DBus'' ''org.example.App'' [] '':1.6''),
        At 1 None (Name_owner_changed ''org.freedesktop.DBus'' ''/org/freedesktop/DBus''
                     ''org.freedesktop.DBus'' ''org.example.App'' '':1.6'' [])]
       (snd (g_bus_watch_name example_is_name None 1 0 ''org.example.App'' {}
               None (Some 2) 0 None initial_world))"
  by code_simp

text \<open>
  The amended claim C1 in a process with two watchers: the first sees an owner and a
  change of owner on its own context, then the closure of its connection is signalled
  in a thread with another thread-default context, and the queued Vanished is dispatched.
\<close>

theorem delivered_callbacks_alternate_witness:
  "delivered_to example_is_name 1
     [Watch_name None 2 0 ''org.example.Other'' {} (Some 3) None 0 None,
      At 1 None (Bus_get_finished (Some 7) 1 1),
      At 2 None (Bus_get_finished (Some 7) 2 2),
      At 1 None (Get_name_owner_finished (Some '':1.5'')),
      At 2 None (Get_name_owner_finished (Some '':1.8'')),
      At 1 None (Name_owner_changed ''org.freedesktop.DBus'' ''/org/freedesktop/DBus''
                   ''org.freedesktop.DBus'' ''org.example.App'' '':1.5'' '':1.6''),
      At 1 (Some 9) Connection_closed,
      At 1 None Idle_dispatch]
     (snd (g_bus_watch_name example_is_name None 1 0 ''org.example.App'' {}
             (Some 1) (Some 2) 0 None initial_world))
     = [CALL_TYPE_NAME_APPEARED, CALL_TYPE_NAME_VANISHED, CALL_TYPE_NAME_APPEARED,
        CALL_TYPE_NAME_VANISHED]
   \<and> alternates
       (delivered_to example_is_name 1
          [Watch_name None 2 0 ''org.example.Other'' {} (Some 3) None 0 None,
           At 1 None (Bus_get_finished (Some 7) 1 1),
           At 2 None (Bus_get_finished (Some 7) 2 2),
           At 1 None (Get_name_owner_finished (Some '':1.5'')),
           At 2 None (Get_name_owner_finished (Some '':1.8'')),
           At 1 None (Name_owner_changed ''org.freedesktop.DBus'' ''/org/freedesktop/DBus''
                        ''org.freedesktop.DBus'' ''org.example.App'' '':1.5'' '':1.6''),
           At 1 (Some 9) Connection_closed,
           At 1 None Idle_dispatch]
          (snd (g_bus_watch_name example_is_name None 1 0 ''org.example.App'' {}
                  (Some 1) (Some 2) 0 None initial_world)))"
proof -
  let ?w1 = "snd (g_bus_watch_name example_is_name None 1 0 ''org.example.App'' {}
                (Some 1) (Some 2) 0 None initial_world)"
  let ?occs = "[Watch_name None 2 0 ''org.example.Other'' {} (Some 3) None 0 None,
      At 1 None (Bus_get_finished (Some 7) 1 1),
      At 2 None (Bus_get_finished (Some 7) 2 2),
      At 1 None (Get_name_owner_finished (Some '':1.5'')),
      At 2 None (Get_name_owner_finished (Some '':1.8'')),
      At 1 None (Name_owner_changed ''org.freedesktop.DBus'' ''/org/freedesktop/DBus''
                   ''org.freedesktop.DBus'' ''org.example.App'' '':1.5'' '':1.6''),
      At 1 (Some 9) Connection_closed,
      At 1 None Idle_dispatch]"
  have e: "delivered_to example_is_name 1 ?occs ?w1
             = [CALL_TYPE_NAME_APPEARED, CALL_TYPE_NAME_VANISHED, CALL_TYPE_NAME_APPEARED,
                CALL_TYPE_NAME_VANISHED]"
    by code_simp
  have u: "unused 1 initial_world"
    by (simp add: unused_def initial_world_def calls_of_def lookup_client_def)
  have hs: "(Some 1 :: handler option) \<noteq> None" "(Some 2 :: handler option) \<noteq> None"
    by simp_all
  have w1: "?w1 = snd (g_bus_watch_name example_is_name None 1 0 ''org.example.App'' {}
                         (Some 1) (Some 2) 0 None initial_world)
            \<or> ?w1 = snd (g_bus_watch_name_on_connection example_is_name None 1 None 0 0
                            ''org.example.App'' {} (Some 1) (Some 2) 0 None initial_world)"
    by simp
  have nr: "\<not> list_ex (registers 1) ?occs"
    by simp
  have io: "in_order example_is_name 1 ?occs ?w1"
    by code_simp
  from delivered_callbacks_alternate
         [where is_name = example_is_name and nm = "''org.example.App''", OF u hs w1 nr io]
  have "alternates (delivered_to example_is_name 1 ?occs ?w1)" .
  with e show ?thesis by simp
qed


subsection \<open>The first callback\<close>

text \<open>
  The references of a watcher are preserved by every occurrence that is no registration
  at its address; a watcher that is registered stays so until its id is unwatched; and an
  event that settles the first answer of a registered watcher requests a call.
\<close>

lemma no_refs: "int (length xs) + int (length ys) \<le> 0 \<Longrightarrow> xs = [] \<and> ys = []"
  by (cases xs; cases ys) auto

lemma unwatch_quiet: "g_bus_unwatch_name j w = Some w' \<Longrightarrow> new_callbacks w w' = []"
  by (drule unwatch_Some) (auto simp: new_callbacks_def)

lemma first_frame:
  assumes "first_inv a i ok ds w" and "untouched a w w'"
  shows "first_inv a i ok ds w'"
proof -
  from assms(2) have "heap w' a = heap w a" "queued_to a w' = queued_to a w"
    "calls_of a w' = calls_of a w"
    "\<And>j. lookup_client w' j = Some a \<Longrightarrow> lookup_client w j = Some a"
    by (simp_all add: untouched_def queued_to_def)
  with assms(1) show ?thesis
    by (auto simp: first_inv_def split: option.splits)
qed

lemma first_store:
  assumes inv: "first_inv a i ok ds w"
    and h: "heap w a = Some c"
    and e: "effect_ok tdc c co acts"
    and r: "refs_ok d c co acts"
    and an: "answers_ok c co acts"
    and t: "tagged a acts"
    and ps: "(d = 0 \<and> ps = pending w)
             \<or> (d = 1 \<and> (\<exists>k. (a, k) \<in> set (pending w) \<and> ps = remove1 (a, k) (pending w)))"
  shows "first_inv a i ok (ds @ callbacks acts) (store a (co, acts) (w\<lparr>pending := ps\<rparr>))"
proof -
  define w' where "w' = store a (co, acts) (w\<lparr>pending := ps\<rparr>)"
  define reg :: int where "reg = (if cancelled c then 0 else 1)"
  from inv h have hs: "name_appeared_handler c \<noteq> None" "name_vanished_handler c \<noteq> None"
    and uniq: "\<And>j. lookup_client w j = Some a \<Longrightarrow> j = i"
    and okc: "ok \<Longrightarrow> ds @ queued_to a w \<noteq> []"
    and rc: "reg + int (length (calls_of a w)) + int (length (queued_to a w)) \<le> ref_count c"
    and can: "cancelled c \<Longrightarrow> \<forall>j. lookup_client w j \<noteq> Some a"
    and loc: "START_SERVICE_BY_NAME \<in> set (calls_of a w) \<Longrightarrow> located c"
    and dec: "\<not> cancelled c \<Longrightarrow> previous_call c \<noteq> PREVIOUS_CALL_NONE
                \<Longrightarrow> ds @ queued_to a w \<noteq> []"
    by (auto simp: first_inv_def reg_def)
  have hp: "heap w' a = co" and lk: "\<And>j. lookup_client w' j = lookup_client w j"
    by (simp_all add: w'_def)
  have q: "queued_to a w' = queued_to a w @ map call_type (idle_of acts)"
    using own_tagged [OF t] by (simp add: w'_def queued_to_def)
  have cs: "calls_of a w' = calls_in a ps @ async_of acts"
    by (simp add: w'_def calls_of_def)
  from ps have len: "int (length (calls_in a ps)) = int (length (calls_of a w)) - d"
    and dd: "d = 0 \<or> d = 1"
    by (auto simp: calls_of_def calls_in_remove1 calls_in_mem length_remove1_mem)
  from ps have sub: "set (calls_in a ps) \<subseteq> set (calls_of a w)"
    by (auto simp: calls_of_def calls_in_remove1 dest: subsetD [OF set_remove1_subset])
  have seq: "(ds @ callbacks acts) @ queued_to a w' \<noteq> []"
    if "ds @ queued_to a w \<noteq> [] \<or> requested acts \<noteq> []"
    using that by (auto simp: q requested_def)
  have okc': "ok \<longrightarrow> (ds @ callbacks acts) @ queued_to a w' \<noteq> []"
    using okc seq by blast
  show ?thesis
  proof (cases co)
    case None
    with r have "ref_count c + int (length (idle_of acts)) + int (length (async_of acts)) \<le> d"
      by (simp add: refs_ok_def)
    with rc len dd
    have "reg = 0"
      and "int (length (calls_in a ps)) + int (length (queued_to a w)) \<le> 0"
      and "int (length (idle_of acts)) + int (length (async_of acts)) \<le> 0"
      by (auto simp: reg_def split: if_splits)
    with no_refs have z: "reg = 0" "calls_in a ps = []" "queued_to a w = []"
      "idle_of acts = []" "async_of acts = []"
      by blast+
    from z(1) have "cancelled c" by (simp add: reg_def split: if_splits)
    with can lk have "\<forall>j. lookup_client w' j \<noteq> Some a" by simp
    with None hp z okc' uniq lk show ?thesis
      unfolding first_inv_def w'_def [symmetric] by (simp add: q cs)
  next
    case (Some c')
    with e have st: "name_appeared_handler c' = name_appeared_handler c"
      "name_vanished_handler c' = name_vanished_handler c"
      "cancelled c' = cancelled c"
      "cancelled c \<or> previous_call c' = last_call (previous_call c) (requested acts)"
      by (auto simp: effect_ok_def)
    from r Some
    have "ref_count c + int (length (idle_of acts)) + int (length (async_of acts)) - d
            \<le> ref_count c'"
      by (simp add: refs_ok_def)
    with rc len
    have rc': "reg + int (length (calls_of a w')) + int (length (queued_to a w')) \<le> ref_count c'"
      by (simp add: q cs)
    from an Some have l1: "located c \<Longrightarrow> located c'"
      and l2: "START_SERVICE_BY_NAME \<in> set (async_of acts) \<Longrightarrow> located c'"
      by (auto simp: answers_ok_def)
    have loc': "START_SERVICE_BY_NAME \<in> set (calls_of a w') \<longrightarrow> located c'"
      using loc l1 l2 sub by (auto simp: cs)
    have dec': "\<not> cancelled c' \<and> previous_call c' \<noteq> PREVIOUS_CALL_NONE
                  \<longrightarrow> (ds @ callbacks acts) @ queued_to a w' \<noteq> []"
    proof (intro impI, elim conjE)
      assume nc: "\<not> cancelled c'" and p: "previous_call c' \<noteq> PREVIOUS_CALL_NONE"
      show "(ds @ callbacks acts) @ queued_to a w' \<noteq> []"
      proof (cases "requested acts = []")
        case False
        then show ?thesis using seq by blast
      next
        case True
        with st nc p have "previous_call c \<noteq> PREVIOUS_CALL_NONE" by auto
        with dec nc st(3) show ?thesis using seq by simp
      qed
    qed
    from can st(3) lk have "cancelled c' \<longrightarrow> (\<forall>j. lookup_client w' j \<noteq> Some a)" by simp
    with Some hp st hs rc' loc' dec' okc' uniq lk show ?thesis
      unfolding first_inv_def w'_def [symmetric] by (simp add: reg_def)
  qed
qed

lemma first_dispatch:
  assumes inv: "first_inv a i ok ds w" and s: "dispatch_idle a w = Some w'"
  shows "first_inv a i ok (ds @ new_callbacks w w') w'"
proof -
  from dispatch_idle_Some [OF s]
  obtain c data rest co acts where h: "heap w a = Some c"
    and t: "take_first a (idle w) = Some (data, rest)"
    and w': "w' = store a (co, acts) (w\<lparr>idle := rest\<rparr>)"
    and q: "idle_of acts = []" "async_of acts = []"
    and cb: "name_appeared_handler c \<noteq> None \<and> name_vanished_handler c \<noteq> None
               \<longrightarrow> callbacks acts = [call_type data]"
    and co: "co = (if ref_count c = 1 then None else Some (c\<lparr>ref_count := ref_count c - 1\<rparr>))"
    by blast
  define reg :: int where "reg = (if cancelled c then 0 else 1)"
  from inv h have hs: "name_appeared_handler c \<noteq> None" "name_vanished_handler c \<noteq> None"
    and uniq: "\<And>j. lookup_client w j = Some a \<Longrightarrow> j = i"
    and rc: "reg + int (length (calls_of a w)) + int (length (queued_to a w)) \<le> ref_count c"
    and can: "cancelled c \<Longrightarrow> \<forall>j. lookup_client w j \<noteq> Some a"
    and loc: "START_SERVICE_BY_NAME \<in> set (calls_of a w) \<Longrightarrow> located c"
    by (auto simp: first_inv_def reg_def)
  from hs cb have n: "new_callbacks w w' = [call_type data]"
    by (simp add: w' new_callbacks_def)
  from take_first_Some [OF t] have o: "queued_to a w = call_type data # map call_type (own a rest)"
    by (simp add: queued_to_def)
  have qd: "queued_to a w' = map call_type (own a rest)"
    using q by (simp add: w' queued_to_def)
  have cs: "calls_of a w' = calls_of a w"
    using q by (simp add: w' calls_of_def)
  have hp: "heap w' a = co" and lk: "\<And>j. lookup_client w' j = lookup_client w j"
    by (simp_all add: w')
  show ?thesis
  proof (cases "ref_count c = 1")
    case True
    with rc o
    have "reg = 0" and "int (length (calls_of a w)) + int (length (own a rest)) \<le> 0"
      by (auto simp: reg_def split: if_splits)
    with no_refs have z: "reg = 0" "calls_of a w = []" "own a rest = []"
      by blast+
    from z(1) have "cancelled c" by (simp add: reg_def split: if_splits)
    with can lk have "\<forall>j. lookup_client w' j \<noteq> Some a" by simp
    with True co hp z uniq lk show ?thesis
      unfolding first_inv_def by (simp add: n qd cs)
  next
    case False
    with co hp have h': "heap w' a = Some (c\<lparr>ref_count := ref_count c - 1\<rparr>)" by simp
    from rc o have "reg + int (length (calls_of a w')) + int (length (queued_to a w'))
                      \<le> ref_count c - 1"
      by (simp add: qd cs)
    with h' hs can loc uniq lk show ?thesis
      unfolding first_inv_def by (simp add: n cs reg_def located_def)
  qed
qed

lemma first_unwatch:
  assumes inv: "first_inv a i ok ds w" and u: "g_bus_unwatch_name j w = Some w'"
  shows "first_inv a i ok ds w'"
    and "registered a w \<Longrightarrow> j \<noteq> i \<Longrightarrow> registered a w'"
proof -
  from unwatch_Some [OF u]
  consider (miss) x where "w' = w\<lparr>trace := trace w @ [x]\<rparr>"
    | (hit) b c co acts where "lookup_client w j = Some b" "heap w b = Some c"
        "w' = store b (co, acts)
                (w\<lparr>map_id_to_client := map_option (\<lambda>m. m(j := None)) (map_id_to_client w)\<rparr>)"
        "idle_of acts = []" "async_of acts = []"
        "co = (if ref_count c = 1 then None
               else Some (c\<lparr>cancelled := True, ref_count := ref_count c - 1\<rparr>))"
    by blast
  then have "first_inv a i ok ds w' \<and> (registered a w \<longrightarrow> j \<noteq> i \<longrightarrow> registered a w')"
  proof cases
    case miss
    then have "untouched a w w'" by (simp add: untouched_def calls_of_def)
    with inv miss show ?thesis by (simp add: first_frame registered_def)
  next
    case hit
    note l = hit(1) and h = hit(2) and w' = hit(3) and q = hit(4,5) and co = hit(6)
    have qd: "queued_to a w' = queued_to a w" "calls_of a w' = calls_of a w"
      "own a (idle w') = own a (idle w)"
      using q by (simp_all add: w' queued_to_def calls_of_def)
    have lk: "\<And>k. lookup_client w' k = (if k = j then None else lookup_client w k)"
      by (simp add: w')
    show ?thesis
    proof (cases "b = a")
      case False
      then have "heap w' a = heap w a" by (simp add: w')
      with qd lk have "untouched a w w'" by (simp add: untouched_def)
      with inv \<open>heap w' a = heap w a\<close> show ?thesis by (simp add: first_frame registered_def)
    next
      case True
      from inv l True have ji: "j = i" by (simp add: first_inv_def)
      from inv h l True have nc: "\<not> cancelled c"
        and hs: "name_appeared_handler c \<noteq> None" "name_vanished_handler c \<noteq> None"
        and rc: "1 + int (length (calls_of a w)) + int (length (queued_to a w)) \<le> ref_count c"
        and loc: "START_SERVICE_BY_NAME \<in> set (calls_of a w) \<Longrightarrow> located c"
        and uniq: "\<And>k. lookup_client w k = Some a \<Longrightarrow> k = i"
        and okc: "ok \<longrightarrow> ds @ queued_to a w \<noteq> []"
        by (auto simp: first_inv_def split: if_splits)
      from uniq lk ji have none: "\<forall>k. lookup_client w' k \<noteq> Some a" by auto
      have hp: "heap w' a = co" using True by (simp add: w')
      have "first_inv a i ok ds w'"
      proof (cases "ref_count c = 1")
        case True
        with rc have "int (length (calls_of a w)) + int (length (queued_to a w)) \<le> 0"
          by simp
        with no_refs have "calls_of a w = []" "queued_to a w = []" by blast+
        with True co hp none okc show ?thesis
          unfolding first_inv_def by (simp add: qd)
      next
        case False
        with co hp
        have "heap w' a = Some (c\<lparr>cancelled := True, ref_count := ref_count c - 1\<rparr>)" by simp
        with hs rc loc none okc show ?thesis
          unfolding first_inv_def by (simp add: qd located_def)
      qed
      with ji show ?thesis by simp
    qed
  qed
  then show "first_inv a i ok ds w'"
    and "registered a w \<Longrightarrow> j \<noteq> i \<Longrightarrow> registered a w'"
    by simp_all
qed

lemma first_occur:
  assumes inv: "first_inv a i ok ds w" and s: "occur g x w = Some w'"
    and nr: "\<not> registers a x"
  shows "first_inv a i ok (ds @ (if handled_at a x then new_callbacks w w' else [])) w'"
    and "registered a w \<Longrightarrow> \<not> unwatches i x \<Longrightarrow> registered a w'"
proof -
  have "first_inv a i ok (ds @ (if handled_at a x then new_callbacks w w' else [])) w'
        \<and> (registered a w \<longrightarrow> \<not> unwatches i x \<longrightarrow> registered a w')"
  proof (cases "\<exists>j. unwatches j x")
    case True
    then obtain b tdc j where x: "x = At b tdc (Unwatch j)"
      using unwatches_At by blast
    with s have u: "g_bus_unwatch_name j w = Some w'" by simp
    from unwatch_quiet [OF u] first_unwatch [OF inv u] x show ?thesis by auto
  next
    case False
    show ?thesis
    proof (cases "handled_at a x")
      case False
      from frame_occur [OF s False nr] \<open>\<not> (\<exists>j. unwatches j x)\<close>
      have u: "untouched a w w'" by simp
      then have "heap w' a = heap w a" by (simp add: untouched_def)
      with inv u False show ?thesis by (simp add: first_frame registered_def)
    next
      case True
      then obtain tdc e where x: "x = At a tdc e" by (cases x) auto
      with \<open>\<not> (\<exists>j. unwatches j x)\<close> have nu: "\<not> is_unwatch e" by (cases e) auto
      show ?thesis
      proof (cases "e = Idle_dispatch")
        case True
        with s x have d: "dispatch_idle a w = Some w'" by simp
        from dispatch_idle_Some [OF d]
        obtain c data rest co acts where h: "heap w a = Some c"
          and t: "take_first a (idle w) = Some (data, rest)"
          and w': "w' = store a (co, acts) (w\<lparr>idle := rest\<rparr>)"
          and co: "co = (if ref_count c = 1 then None
                         else Some (c\<lparr>ref_count := ref_count c - 1\<rparr>))"
          by blast
        have hp: "heap w' a = co" by (simp add: w')
        have "registered a w'" if "registered a w"
        proof -
          from that h have nc: "\<not> cancelled c" by (simp add: registered_def)
          from take_first_Some [OF t] have "queued_to a w \<noteq> []" by (simp add: queued_to_def)
          then have "1 \<le> int (length (queued_to a w))" by (cases "queued_to a w") auto
          with inv h nc have "ref_count c \<noteq> 1" by (auto simp: first_inv_def)
          with hp co nc show ?thesis by (simp add: registered_def)
        qed
        with first_dispatch [OF inv d] x show ?thesis by simp
      next
        case False
        from occur_handled [OF s [unfolded x] nu False]
        obtain c co acts d ps where h: "heap w a = Some c"
          and w': "w' = store a (co, acts) (w\<lparr>pending := ps\<rparr>)"
          and t: "tagged a acts"
          and ps: "(d = 0 \<and> ps = pending w)
                   \<or> (d = 1 \<and> (\<exists>k. (a, k) \<in> set (pending w) \<and> ps = remove1 (a, k) (pending w)))"
          and e: "name_appeared_handler c \<noteq> None \<and> name_vanished_handler c \<noteq> None
                    \<longrightarrow> effect_ok tdc c co acts \<and> refs_ok d c co acts \<and> answers_ok c co acts"
          by blast
        from inv h e have e': "effect_ok tdc c co acts" "refs_ok d c co acts"
          "answers_ok c co acts"
          by (simp_all add: first_inv_def)
        have n: "new_callbacks w w' = callbacks acts"
          by (simp add: w' new_callbacks_def)
        have "registered a w'" if "registered a w"
        proof -
          from that h have nc: "\<not> cancelled c" by (simp add: registered_def)
          with inv h have rc: "1 + int (length (calls_of a w)) \<le> ref_count c"
            by (auto simp: first_inv_def)
          from ps have "d \<le> int (length (calls_of a w))"
          proof (elim disjE conjE exE)
            fix k assume "d = 1" "(a, k) \<in> set (pending w)"
            then have "calls_of a w \<noteq> []" by (auto simp: calls_of_def calls_in_mem)
            with \<open>d = 1\<close> show ?thesis by (cases "calls_of a w") auto
          qed simp
          with rc e'(2) obtain c' where c': "co = Some c'"
            by (cases co) (auto simp: refs_ok_def)
          with e'(1) nc have "\<not> cancelled c'" by (simp add: effect_ok_def)
          with c' show ?thesis by (simp add: registered_def w')
        qed
        with first_store [OF inv h e' t ps] x n w' show ?thesis by simp
      qed
    qed
  qed
  then show "first_inv a i ok (ds @ (if handled_at a x then new_callbacks w w' else [])) w'"
    and "registered a w \<Longrightarrow> \<not> unwatches i x \<Longrightarrow> registered a w'"
    by simp_all
qed

lemma first_run:
  assumes "first_inv a i ok ds w" and "process_run g xs w = Some w'"
    and "\<not> list_ex (registers a) xs"
  shows "first_inv a i ok (ds @ delivered_to g a xs w) w'"
    and "registered a w \<Longrightarrow> \<not> list_ex (unwatches i) xs \<Longrightarrow> registered a w'"
proof -
  from assms
  have "first_inv a i ok (ds @ delivered_to g a xs w) w'
        \<and> (registered a w \<longrightarrow> \<not> list_ex (unwatches i) xs \<longrightarrow> registered a w')"
  proof (induction xs arbitrary: ds w)
    case Nil
    then show ?case by simp
  next
    case (Cons x xs)
    from Cons.prems(2) obtain w1 where s: "occur g x w = Some w1"
      and r: "process_run g xs w1 = Some w'"
      by (auto split: option.splits)
    from Cons.prems(3) have nr: "\<not> registers a x" "\<not> list_ex (registers a) xs" by simp_all
    note f = first_occur [OF Cons.prems(1) s nr(1)]
    from Cons.IH [OF f(1) r nr(2)] f(2) s show ?case by auto
  qed
  then show "first_inv a i ok (ds @ delivered_to g a xs w) w'"
    and "registered a w \<Longrightarrow> \<not> list_ex (unwatches i) xs \<Longrightarrow> registered a w'"
    by simp_all
qed

lemma process_run_append:
  "process_run g (xs @ ys) w
     = (case process_run g xs w of None \<Rightarrow> None | Some w' \<Rightarrow> process_run g ys w')"
  by (induction xs arbitrary: w) (auto split: option.splits)

lemma delivered_to_append:
  "process_run g xs w = Some w' \<Longrightarrow>
     delivered_to g a (xs @ ys) w = delivered_to g a xs w @ delivered_to g a ys w'"
  by (induction xs arbitrary: w) (auto split: option.splits)

lemma first_settles:
  assumes inv: "first_inv a i ok ds w" and reg: "registered a w"
    and s: "occur g (At a tdc e) w = Some w'" and se: "settles e"
  shows "first_inv a i True (ds @ new_callbacks w w') w'"
proof -
  from se have nu: "\<not> is_unwatch e" and ni: "e \<noteq> Idle_dispatch" by (cases e; simp)+
  then have x: "\<not> registers a (At a tdc e)" "\<not> unwatches i (At a tdc e)"
    by (cases e; simp)+
  note f = first_occur [OF inv s x(1)]
  from f(2) [OF reg x(2)] obtain c' where h': "heap w' a = Some c'" and nc: "\<not> cancelled c'"
    by (auto simp: registered_def split: option.splits)
  from occur_handled [OF s nu ni]
  obtain c co acts d ps where h: "heap w a = Some c"
    and w': "w' = store a (co, acts) (w\<lparr>pending := ps\<rparr>)"
    and e: "name_appeared_handler c \<noteq> None \<and> name_vanished_handler c \<noteq> None
              \<longrightarrow> (settles e
                     \<and> (START_SERVICE_BY_NAME \<in> set (calls_in a (pending w)) \<longrightarrow> located c)
                   \<longrightarrow> (\<forall>c'. co = Some c' \<longrightarrow> previous_call c' \<noteq> PREVIOUS_CALL_NONE))"
    by blast
  from w' h' have co: "co = Some c'" by simp
  from inv h have "name_appeared_handler c \<noteq> None" "name_vanished_handler c \<noteq> None"
    "START_SERVICE_BY_NAME \<in> set (calls_in a (pending w)) \<longrightarrow> located c"
    by (simp_all add: first_inv_def calls_of_def)
  with e se co have "previous_call c' \<noteq> PREVIOUS_CALL_NONE" by simp
  with f(1) h' nc have "(ds @ new_callbacks w w') @ queued_to a w' \<noteq> []"
    by (simp add: first_inv_def)
  with f(1) show ?thesis by (simp add: first_inv_def)
qed

lemma first_watch:
  assumes "unused a w0" and "appeared \<noteq> None" and "vanished \<noteq> None" and "g nm"
  shows "first_inv a (next_global_id w0) False []
           (snd (g_bus_watch_name g ctx a bt nm fl appeared vanished ud udf w0))"
    and "registered a (snd (g_bus_watch_name g ctx a bt nm fl appeared vanished ud udf w0))"
  using assms
    watch_world [where g = g and nm = nm, OF assms(4), of ctx a bt fl appeared vanished ud udf w0]
  by (simp_all add: first_inv_def registered_def unused_def queued_to_def calls_of_def)

lemma first_watch_on_connection:
  assumes "unused a w0" and "appeared \<noteq> None" and "vanished \<noteq> None" and "g nm"
    and "cn \<noteq> None"
  shows "first_inv a (next_global_id w0) False []
           (snd (g_bus_watch_name_on_connection g ctx a cn hid sid nm fl appeared vanished
                   ud udf w0))"
    and "registered a (snd (g_bus_watch_name_on_connection g ctx a cn hid sid nm fl appeared
                              vanished ud udf w0))"
proof -
  let ?c = "new_client (next_global_id w0) nm fl appeared vanished ud udf ctx
              \<lparr>connection := cn\<rparr>"
  obtain c' acts where h: "has_connection ?c hid sid = (c', acts)"
    by (cases "has_connection ?c hid sid")
  from moves_has_connection [OF h, of ctx] has_connection_quiet [OF h]
  have f: "name_appeared_handler c' = appeared" "name_vanished_handler c' = vanished"
    "previous_call c' = PREVIOUS_CALL_NONE" "\<not> cancelled c'"
    "1 + int (length (async_of acts)) \<le> ref_count c'"
    "START_SERVICE_BY_NAME \<in> set (async_of acts) \<longrightarrow> located c'"
    by (simp_all add: moves_def requested_def)
  note ww = watch_on_connection_world [where g = g and nm = nm, OF assms(4,5) h, of a]
  from assms f ww
  show "first_inv a (next_global_id w0) False []
           (snd (g_bus_watch_name_on_connection g ctx a cn hid sid nm fl appeared vanished
                   ud udf w0))"
    by (simp add: first_inv_def unused_def queued_to_def calls_of_def)
  from f ww
  show "registered a (snd (g_bus_watch_name_on_connection g ctx a cn hid sid nm fl appeared
                              vanished ud udf w0))"
    by (simp add: registered_def)
qed

text \<open>
  Claim C2, amended. Take a watcher registered with both handlers and a valid name (and a
  connection, for \<open>g_bus_watch_name_on_connection\<close>) under the id \<open>i\<close>, in a process in
  any state, with any other watchers, the address \<open>a\<close> it is given being unused. Take any
  run of occurrences (events of this and of other watchers, each under any thread-default
  main context, and registrations of other watchers at other addresses) that contains an
  event of the watcher that settles the first answer (the bus cannot be acquired,
  \<open>GetNameOwner\<close> completes, \<open>StartServiceByName\<close> is answered with an unexpected code, or
  the connection closes), with no call of \<open>g_bus_unwatch_name\<close> for the id \<open>i\<close> before
  that event; unwatch calls after it are allowed. Then at the end of the run a callback
  has been delivered to the watcher, or one is queued in an idle source and the watcher
  is still in memory: the watcher is not freed with no callback delivered.
\<close>

theorem first_callback_delivered:
  assumes "unused a w0"
    and "appeared \<noteq> None" and "vanished \<noteq> None" and "is_name nm"
    and "(i, w1) = g_bus_watch_name is_name ctx a bt nm fl appeared vanished ud udf w0
         \<or> (cn \<noteq> None
            \<and> (i, w1) = g_bus_watch_name_on_connection is_name ctx a cn hid sid nm fl appeared
                           vanished ud udf w0)"
    and "process_run is_name (pre @ At a tdc e # post) w1 = Some w"
    and "settles e"
    and "\<not> list_ex (unwatches i) pre"
    and "\<not> list_ex (registers a) (pre @ At a tdc e # post)"
  shows "delivered_to is_name a (pre @ At a tdc e # post) w1 \<noteq> []
         \<or> (queued_to a w \<noteq> [] \<and> \<not> freed a w)"
proof -
  from assms(5) have "first_inv a i False [] w1 \<and> registered a w1"
  proof
    assume eq: "(i, w1) = g_bus_watch_name is_name ctx a bt nm fl appeared vanished ud udf w0"
    then have "i = fst (g_bus_watch_name is_name ctx a bt nm fl appeared vanished ud udf w0)"
      "w1 = snd (g_bus_watch_name is_name ctx a bt nm fl appeared vanished ud udf w0)"
      by (metis fst_conv, metis snd_conv)
    with assms(1-4) show ?thesis
      using first_watch [where g = is_name and nm = nm]
        watch_world(5) [where g = is_name and nm = nm]
      by simp
  next
    assume "cn \<noteq> None
            \<and> (i, w1) = g_bus_watch_name_on_connection is_name ctx a cn hid sid nm fl appeared
                           vanished ud udf w0"
    then have cn: "cn \<noteq> None"
      and "i = fst (g_bus_watch_name_on_connection is_name ctx a cn hid sid nm fl appeared
                           vanished ud udf w0)"
      "w1 = snd (g_bus_watch_name_on_connection is_name ctx a cn hid sid nm fl appeared
                           vanished ud udf w0)"
      by (simp, metis fst_conv, metis snd_conv)
    moreover
    obtain c' acts where "has_connection (new_client (next_global_id w0) nm fl appeared vanished
                             ud udf ctx \<lparr>connection := cn\<rparr>) hid sid = (c', acts)"
      by (cases "has_connection (new_client (next_global_id w0) nm fl appeared vanished
                             ud udf ctx \<lparr>connection := cn\<rparr>) hid sid")
    ultimately show ?thesis
      using assms(1-4) first_watch_on_connection [where g = is_name and nm = nm]
        watch_on_connection_world(5) [where g = is_name and nm = nm]
      by simp
  qed
  then have inv1: "first_inv a i False [] w1" and reg1: "registered a w1" by simp_all
  from assms(6) obtain wp ws where rp: "process_run is_name pre w1 = Some wp"
    and s: "occur is_name (At a tdc e) wp = Some ws"
    and rq: "process_run is_name post ws = Some w"
    by (auto simp: process_run_append split: option.splits)
  from assms(9) have nr: "\<not> list_ex (registers a) pre" "\<not> list_ex (registers a) post"
    by simp_all
  define dp where "dp = delivered_to is_name a pre w1"
  from first_run [OF inv1 rp nr(1)] reg1 assms(8)
  have invp: "first_inv a i False dp wp" and regp: "registered a wp"
    by (simp_all add: dp_def)
  from first_settles [OF invp regp s assms(7)]
  have invs: "first_inv a i True (dp @ new_callbacks wp ws) ws" .
  from first_run(1) [OF invs rq nr(2)]
  have inve: "first_inv a i True ((dp @ new_callbacks wp ws) @ delivered_to is_name a post ws) w" .
  have d: "delivered_to is_name a (pre @ At a tdc e # post) w1
             = (dp @ new_callbacks wp ws) @ delivered_to is_name a post ws"
    using delivered_to_append [OF rp, of a "At a tdc e # post"] s by (simp add: dp_def)
  from inve have "delivered_to is_name a (pre @ At a tdc e # post) w1 @ queued_to a w \<noteq> []"
    and "freed a w \<longrightarrow> queued_to a w = []"
    unfolding d by (auto simp: first_inv_def freed_def split: option.splits)
  then show ?thesis by auto
qed

text \<open>
  Claim C2, as stated, fails in two ways. First, \<open>g_bus_watch_name\<close> returns the id 1,
  the bus is acquired and the owner query started, the caller unwatches the id, and the
  query then completes with an owner: the appeared handler is not called, because the
  watcher is cancelled, and the watcher drops its last reference with no callback
  delivered and none queued. Second, a watcher registered without a vanished handler
  (NULL is allowed) whose owner query finds no owner, and which is unwatched afterwards,
  is freed with no callback delivered either.
\<close>

theorem first_callback_delivered_counterexample:
  "fst (g_bus_watch_name example_is_name None 1 0 ''org.example.App'' {}
          (Some 1) (Some 2) 0 None initial_world) = 1
   \<and> delivered_to example_is_name 1
       [At 1 None (Bus_get_finished (Some 7) 1 1),
        At 1 None (Unwatch 1),
        At 1 None (Get_name_owner_finished (Some '':1.5''))]
       (snd (g_bus_watch_name example_is_name None 1 0 ''org.example.App'' {}
               (Some 1) (Some 2) 0 None initial_world)) = []
   \<and> map_option (queued_to 1)
       (process_run example_is_name
          [At 1 None (Bus_get_finished (Some 7) 1 1),
           At 1 None (Unwatch 1),
           At 1 None (Get_name_owner_finished (Some '':1.5''))]
          (snd (g_bus_watch_name example_is_name None 1 0 ''org.example.App'' {}
                  (Some 1) (Some 2) 0 None initial_world))) = Some []
   \<and> map_option (freed 1)
       (process_run example_is_name
          [At 1 None (Bus_get_finished (Some 7) 1 1),
           At 1 None (Unwatch 1),
           At 1 None (Get_name_owner_finished (Some '':1.5''))]
          (snd (g_bus_watch_name example_is_name None 1 0 ''org.example.App'' {}
                  (Some 1) (Some 2) 0 None initial_world))) = Some True
   \<and> fst (g_bus_watch_name example_is_name None 1 0 ''org.example.App'' {}
            (Some 1) None 0 None initial_world) = 1
   \<and> delivered_to example_is_name 1
       [At 1 None (Bus_get_finished (Some 7) 1 1),
        At 1 None (Get_name_owner_finished None),
        At 1 None (Unwatch 1)]
       (snd (g_bus_watch_name example_is_name None 1 0 ''org.example.App'' {}
               (Some 1) None 0 None initial_world)) = []
   \<and> map_option (freed 1)
       (process_run example_is_name
          [At 1 None (Bus_get_finished (Some 7) 1 1),
           At 1 None (Get_name_owner_finished None),
           At 1 None (Unwatch 1)]
          (snd (g_bus_watch_name example_is_name None 1 0 ''org.example.App'' {}
                  (Some 1) None 0 None initial_world))) = Some True"
  by code_simp

text \<open>
  The amended claim C2 at a watcher whose owner query finds no owner and which is
  unwatched afterwards: it is freed, and Vanished was delivered before.
\<close>

theorem first_callback_delivered_witness:
  "map_option (freed 1)
     (process_run example_is_name
        ([At 1 None (Bus_get_finished (Some 7) 1 1)]
         @ At 1 None (Get_name_owner_finished None) # [At 1 None (Unwatch 1)])
        (snd (g_bus_watch_name example_is_name None 1 0 ''org.example.App'' {}
                (Some 1) (Some 2) 0 None initial_world))) = Some True
   \<and> delivered_to example_is_name 1
       ([At 1 None (Bus_get_finished (Some 7) 1 1)]
        @ At 1 None (Get_name_owner_finished None) # [At 1 None (Unwatch 1)])
       (snd (g_bus_watch_name example_is_name None 1 0 ''org.example.App'' {}
               (Some 1) (Some 2) 0 None initial_world)) \<noteq> []"
proof -
  let ?r = "g_bus_watch_name example_is_name None 1 0 ''org.example.App'' {}
              (Some 1) (Some 2) 0 None initial_world"
  let ?pre = "[At 1 None (Bus_get_finished (Some 7) 1 1)]"
  let ?post = "[At 1 None (Unwatch 1)]"
  let ?e = "Get_name_owner_finished None"
  have e: "map_option (freed 1)
             (process_run example_is_name (?pre @ At 1 None ?e # ?post) (snd ?r)) = Some True"
    by code_simp
  then obtain w where r: "process_run example_is_name (?pre @ At 1 None ?e # ?post) (snd ?r) = Some w"
    and f: "freed 1 w"
    by (cases "process_run example_is_name (?pre @ At 1 None ?e # ?post) (snd ?r)") auto
  have u: "unused 1 initial_world"
    by (simp add: unused_def initial_world_def calls_of_def lookup_client_def)
  have hs: "(Some 1 :: handler option) \<noteq> None" "(Some 2 :: handler option) \<noteq> None"
    by simp_all
  have n: "example_is_name ''org.example.App''"
    by (simp add: example_is_name_def)
  have w1: "(fst ?r, snd ?r) = ?r
            \<or> ((None :: conn option) \<noteq> None
               \<and> (fst ?r, snd ?r)
                   = g_bus_watch_name_on_connection example_is_name None 1 None 0 0
                       ''org.example.App'' {} (Some 1) (Some 2) 0 None initial_world)"
    by simp
  have se: "settles ?e" by simp
  have nu: "\<not> list_ex (unwatches (fst ?r)) ?pre" by simp
  have nr: "\<not> list_ex (registers 1) (?pre @ At 1 None ?e # ?post)" by simp
  from first_callback_delivered
         [where is_name = example_is_name and nm = "''org.example.App''",
          OF u hs n w1 r se nu nr] f
  have "delivered_to example_is_name 1 (?pre @ At 1 None ?e # ?post) (snd ?r) \<noteq> []"
    by simp
  with e show ?thesis by simp
qed


subsection \<open>Closure of the connection\<close>

text \<open>
  Claim C3, amended. \<open>on_connection_disconnected\<close> passes FALSE for
  \<open>ignore_cancelled\<close>, so the closure of the connection honours cancellation: for a
  watcher whose previous call is not Vanished (in particular one in the Appeared state),
  it requests exactly one Vanished when the watcher is not cancelled and has a vanished
  handler, and none when the watcher was cancelled beforehand. The request is the call
  itself on the watcher's own context and an idle source otherwise. In both cases the
  connection is cleared and \<open>previous_call\<close> becomes Vanished.
\<close>

theorem connection_closed_honours_cancellation:
  assumes "previous_call c \<noteq> PREVIOUS_CALL_VANISHED"
  shows "requested (snd (on_connection_disconnected tdc a c))
           = (if \<not> cancelled c \<and> name_vanished_handler c \<noteq> None
              then [CALL_TYPE_NAME_VANISHED] else [])
       \<and> callbacks (snd (on_connection_disconnected tdc a c))
           = (if tdc = main_context c
              then requested (snd (on_connection_disconnected tdc a c)) else [])
       \<and> previous_call (fst (on_connection_disconnected tdc a c)) = PREVIOUS_CALL_VANISHED
       \<and> connection (fst (on_connection_disconnected tdc a c)) = None
       \<and> cancelled (fst (on_connection_disconnected tdc a c)) = cancelled c"
proof -
  let ?c = "c\<lparr>disconnected_signal_handler_id := 0,
               name_owner_changed_subscription_id := 0, connection := None\<rparr>"
  obtain c1 a2 where h: "call_vanished_handler tdc a ?c False = (c1, a2)"
    by (cases "call_vanished_handler tdc a ?c False")
  then obtain a1 where eq: "on_connection_disconnected tdc a c = (c1, a1 @ a2)"
    and q: "callbacks a1 = []" "idle_of a1 = []"
    by (auto simp: on_connection_disconnected_def Let_def split: option.splits)
  note s = call_vanished_handler_summary [OF h]
  from q have r: "requested (a1 @ a2) = requested a2" "callbacks (a1 @ a2) = callbacks a2"
    by (simp_all add: requested_def callbacks_append idle_of_append)
  have cb: "callbacks a2 = (if tdc = main_context c then requested a2 else [])"
    using s(2,3) by (cases "tdc = main_context c") (simp_all add: requested_def)
  from s(1) have f: "previous_call c1 = PREVIOUS_CALL_VANISHED" "connection c1 = None"
    "cancelled c1 = cancelled c"
    by simp_all
  from s(5) assms cb f show ?thesis
    unfolding eq by (simp add: r)
qed

text \<open>
  Claim C3, as stated, fails. A watcher whose events run off its own context is in the
  Appeared state with the Appeared call still queued; it is unwatched (cancelled, and kept
  in memory by the queued call), and then its connection closes. No Vanished is delivered
  or queued: after the queued Appeared is dispatched the watcher is freed, having been
  delivered Appeared only. On the watcher's own context a cancelled watcher is in memory
  only while a call is in flight; when its connection closes then, \<open>previous_call\<close>
  becomes Vanished and nothing is delivered either.
\<close>

theorem connection_closed_honours_cancellation_counterexample:
  "map_option (watcher_state 1)
       (run None 1 [Bus_get_finished (Some 7) 1 1, Get_name_owner_finished (Some '':1.5''),
                    Unwatch 1]
          (snd (g_bus_watch_name example_is_name (Some 3) 1 0 ''org.example.App'' {}
                  (Some 1) (Some 2) 0 None initial_world)))
     = Some (Some (PREVIOUS_CALL_APPEARED, True))
   \<and> map_option delivered
       (run None 1 [Bus_get_finished (Some 7) 1 1, Get_name_owner_finished (Some '':1.5''),
                    Unwatch 1, Connection_closed, Idle_dispatch]
          (snd (g_bus_watch_name example_is_name (Some 3) 1 0 ''org.example.App'' {}
                  (Some 1) (Some 2) 0 None initial_world)))
     = Some [CALL_TYPE_NAME_APPEARED]
   \<and> map_option queued
       (run None 1 [Bus_get_finished (Some 7) 1 1, Get_name_owner_finished (Some '':1.5''),
                    Unwatch 1, Connection_closed, Idle_dispatch]
          (snd (g_bus_watch_name example_is_name (Some 3) 1 0 ''org.example.App'' {}
                  (Some 1) (Some 2) 0 None initial_world)))
     = Some []
   \<and> map_option (freed 1)
       (run None 1 [Bus_get_finished (Some 7) 1 1, Get_name_owner_finished (Some '':1.5''),
                    Unwatch 1, Connection_closed, Idle_dispatch]
          (snd (g_bus_watch_name example_is_name (Some 3) 1 0 ''org.example.App'' {}
                  (Some 1) (Some 2) 0 None initial_world)))
     = Some True
   \<and> map_option (watcher_state 1)
       (run None 1 [Bus_get_finished (Some 7) 1 1, Unwatch 1]
          (snd (g_bus_watch_name example_is_name None 1 0 ''org.example.App'' {}
                  (Some 1) (Some 2) 0 None initial_world)))
     = Some (Some (PREVIOUS_CALL_NONE, True))
   \<and> map_option (watcher_state 1)
       (run None 1 [Bus_get_finished (Some 7) 1 1, Unwatch 1, Connection_closed]
          (snd (g_bus_watch_name example_is_name None 1 0 ''org.example.App'' {}
                  (Some 1) (Some 2) 0 None initial_world)))
     = Some (Some (PREVIOUS_CALL_VANISHED, True))
   \<and> map_option delivered
       (run None 1 [Bus_get_finished (Some 7) 1 1, Unwatch 1, Connection_closed]
          (snd (g_bus_watch_name example_is_name None 1 0 ''org.example.App'' {}
                  (Some 1) (Some 2) 0 None initial_world)))
     = Some []"
  by code_simp

text \<open>
  The amended claim C3 at a watcher in the Appeared state, not cancelled and cancelled.
\<close>

theorem connection_closed_honours_cancellation_witness:
  "requested (snd (on_connection_disconnected None 1
       ((new_client 1 ''org.example.App'' {} (Some 1) (Some 2) 0 None None)
          \<lparr>connection := Some 7, previous_call := PREVIOUS_CALL_APPEARED\<rparr>)))
     = [CALL_TYPE_NAME_VANISHED]
   \<and> requested (snd (on_connection_disconnected None 1
       ((new_client 1 ''org.example.App'' {} (Some 1) (Some 2) 0 None None)
          \<lparr>connection := Some 7, previous_call := PREVIOUS_CALL_APPEARED,
            cancelled := True\<rparr>)))
     = []"
proof -
  let ?c = "(new_client 1 ''org.example.App'' {} (Some 1) (Some 2) 0 None None)
          \<lparr>connection := Some 7, previous_call := PREVIOUS_CALL_APPEARED\<rparr>"
  have "previous_call ?c \<noteq> PREVIOUS_CALL_VANISHED"
    and "previous_call (?c\<lparr>cancelled := True\<rparr>) \<noteq> PREVIOUS_CALL_VANISHED"
    by simp_all
  from connection_closed_honours_cancellation [OF this(1), of None 1]
       connection_closed_honours_cancellation [OF this(2), of None 1]
  show ?thesis by (simp add: new_client_def)
qed


subsection \<open>The registry\<close>

text \<open>
  The check \<open>watcher_id > 0\<close> on an unsigned id.
\<close>

lemma word_not_pos: "\<not> (i :: guint32) > 0 \<longleftrightarrow> i = 0"
  by (simp add: word_gt_0)

text \<open>
  What \<open>g_bus_unwatch_name\<close> does to the registry. For an id that is registered (the
  registry maps it to a client in memory) and is not 0, it returns with the id removed
  from the registry and every other id left as it was; the client has its cancelled flag
  set and one reference less, or is freed when that was its last reference; and a second
  unwatch of the same id logs the warning and changes nothing else. For an id that is not
  registered (never returned, or already unwatched), it logs a warning and changes nothing
  else: the failed check for the id 0, the invalid-id warning otherwise.
\<close>

theorem unwatch_name_registry:
  "(lookup_client w i = Some a \<and> i \<noteq> 0 \<and> heap w a = Some c \<longrightarrow>
      (\<exists>w'. g_bus_unwatch_name i w = Some w'
            \<and> lookup_client w' i = None
            \<and> (\<forall>j. j \<noteq> i \<longrightarrow> lookup_client w' j = lookup_client w j)
            \<and> heap w' a = (if ref_count c = 1 then None
                            else Some (c\<lparr>cancelled := True, ref_count := ref_count c - 1\<rparr>))
            \<and> g_bus_unwatch_name i w' = Some (w'\<lparr>trace := trace w' @ [Warning_invalid_id i]\<rparr>)))
   \<and> (lookup_client w i = None \<longrightarrow>
        g_bus_unwatch_name i w =
          Some (w\<lparr>trace := trace w @ [if i = 0 then Critical_check_failed ''watcher_id > 0''
                                        else Warning_invalid_id i]\<rparr>))"
proof (intro conjI impI)
  assume "lookup_client w i = None"
  then show "g_bus_unwatch_name i w =
          Some (w\<lparr>trace := trace w @ [if i = 0 then Critical_check_failed ''watcher_id > 0''
                                        else Warning_invalid_id i]\<rparr>)"
    by (simp add: g_bus_unwatch_name_def word_gt_0)
next
  assume as: "lookup_client w i = Some a \<and> i \<noteq> 0 \<and> heap w a = Some c"
  obtain co acts where un: "client_unref (c\<lparr>cancelled := True\<rparr>) = (co, acts)"
    by (cases "client_unref (c\<lparr>cancelled := True\<rparr>)")
  define w1 where "w1 = w\<lparr>map_id_to_client :=
                            map_option (\<lambda>m. m(i := None)) (map_id_to_client w)\<rparr>"
  define w' where "w' = store a (co, acts) w1"
  from as un have u: "g_bus_unwatch_name i w = Some w'"
    by (simp add: g_bus_unwatch_name_def w'_def w1_def Let_def word_gt_0)
  have l: "lookup_client w' i = None"
    by (simp add: w'_def w1_def store_def lookup_client_def split: option.splits)
  have l': "\<forall>j. j \<noteq> i \<longrightarrow> lookup_client w' j = lookup_client w j"
    by (simp add: w'_def w1_def store_def lookup_client_def split: option.splits)
  from un have "co = (if ref_count c = 1 then None
                      else Some (c\<lparr>cancelled := True, ref_count := ref_count c - 1\<rparr>))"
    by (auto simp: client_unref_def Let_def split: if_splits)
  then have h: "heap w' a = (if ref_count c = 1 then None
                            else Some (c\<lparr>cancelled := True, ref_count := ref_count c - 1\<rparr>))"
    by (simp add: w'_def store_def)
  from l as have again: "g_bus_unwatch_name i w' = Some (w'\<lparr>trace := trace w' @ [Warning_invalid_id i]\<rparr>)"
    by (simp add: g_bus_unwatch_name_def word_gt_0)
  from u l l' h again
  show "\<exists>w'. g_bus_unwatch_name i w = Some w'
            \<and> lookup_client w' i = None
            \<and> (\<forall>j. j \<noteq> i \<longrightarrow> lookup_client w' j = lookup_client w j)
            \<and> heap w' a = (if ref_count c = 1 then None
                            else Some (c\<lparr>cancelled := True, ref_count := ref_count c - 1\<rparr>))
            \<and> g_bus_unwatch_name i w' = Some (w'\<lparr>trace := trace w' @ [Warning_invalid_id i]\<rparr>)"
    by blast
qed

text \<open>
  At the first watcher of a process, and at an id never returned.
\<close>

theorem unwatch_name_registry_witness:
  "(\<exists>w'. g_bus_unwatch_name 1
             (snd (g_bus_watch_name example_is_name None 1 0 ''org.example.App'' {}
                     (Some 1) (Some 2) 0 None initial_world)) = Some w'
         \<and> lookup_client w' 1 = None
         \<and> map_option cancelled (heap w' 1) = Some True
         \<and> g_bus_unwatch_name 1 w' = Some (w'\<lparr>trace := trace w' @ [Warning_invalid_id 1]\<rparr>))
   \<and> g_bus_unwatch_name 5 initial_world
       = Some (initial_world\<lparr>trace := trace initial_world @ [Warning_invalid_id 5]\<rparr>)"
proof -
  let ?w1 = "snd (g_bus_watch_name example_is_name None 1 0 ''org.example.App'' {}
                     (Some 1) (Some 2) 0 None initial_world)"
  let ?c = "client_ref (new_client 1 ''org.example.App'' {} (Some 1) (Some 2) 0 None None)"
  have n: "example_is_name ''org.example.App''"
    by (simp add: example_is_name_def)
  have h: "heap ?w1 1 = Some ?c"
    using watch_world(1) [where g = example_is_name and nm = "''org.example.App''", OF n,
                           of None 1 0 "{}" "Some 1" "Some 2" 0 None initial_world]
    by (simp add: initial_world_def)
  have l: "lookup_client ?w1 1 = Some 1"
    using n by (simp add: g_bus_watch_name_def lookup_client_def hash_table_insert_def
                  initial_world_def new_client_def Let_def emit_def)
  have l0: "lookup_client initial_world 5 = None"
    by (simp add: lookup_client_def initial_world_def)
  from unwatch_name_registry [of ?w1 1 1 ?c] h l
  obtain w' where "g_bus_unwatch_name 1 ?w1 = Some w'" and "lookup_client w' 1 = None"
    and "heap w' 1 = Some (?c\<lparr>cancelled := True, ref_count := ref_count ?c - 1\<rparr>)"
    and "g_bus_unwatch_name 1 w' = Some (w'\<lparr>trace := trace w' @ [Warning_invalid_id 1]\<rparr>)"
    by auto
  moreover from unwatch_name_registry [of initial_world 5] l0
  have "g_bus_unwatch_name 5 initial_world
       = Some (initial_world\<lparr>trace := trace initial_world @ [Warning_invalid_id 5]\<rparr>)"
    by simp
  ultimately show ?thesis by auto
qed

text \<open>
  Claim C9 fails once the id counter has wrapped. \<open>next_global_id\<close> is a \<open>guint\<close> that
  is incremented with no check (the source marks it: uh oh, handle overflow). After
  4294967294 registrations the counter is \<open>0xFFFFFFFF\<close>; the next registration returns
  that id, and the one after it returns the id 0 and enters it in the registry, although
  the documentation of \<open>g_bus_watch_name\<close> says the identifier is never 0. For this id,
  returned by watch and still registered, \<open>g_bus_unwatch_name\<close> fails its check
  \<open>watcher_id > 0\<close> and returns: the id is still in the registry and the watcher is not
  cancelled.
\<close>

theorem unwatch_name_wrapped_id:
  "fst (g_bus_watch_name example_is_name None 1 0 ''org.example.App'' {} (Some 1) (Some 2) 0 None
          (initial_world\<lparr>next_global_id := 0xFFFFFFFF\<rparr>)) = 0xFFFFFFFF
   \<and> fst (g_bus_watch_name example_is_name None 2 0 ''org.example.Other'' {} (Some 3) (Some 4) 0
            None
            (snd (g_bus_watch_name example_is_name None 1 0 ''org.example.App'' {} (Some 1)
                    (Some 2) 0 None (initial_world\<lparr>next_global_id := 0xFFFFFFFF\<rparr>)))) = 0
   \<and> lookup_client
         (snd (g_bus_watch_name example_is_name None 2 0 ''org.example.Other'' {} (Some 3) (Some 4)
                 0 None
                 (snd (g_bus_watch_name example_is_name None 1 0 ''org.example.App'' {} (Some 1)
                         (Some 2) 0 None (initial_world\<lparr>next_global_id := 0xFFFFFFFF\<rparr>)))))
         0 = Some 2
   \<and> (case g_bus_unwatch_name 0
              (snd (g_bus_watch_name example_is_name None 2 0 ''org.example.Other'' {} (Some 3)
                      (Some 4) 0 None
                      (snd (g_bus_watch_name example_is_name None 1 0 ''org.example.App'' {}
                              (Some 1) (Some 2) 0 None
                              (initial_world\<lparr>next_global_id := 0xFFFFFFFF\<rparr>))))) of
         None \<Rightarrow> None
       | Some w \<Rightarrow> lookup_client w 0) = Some 2
   \<and> map_option (watcher_state 2)
         (g_bus_unwatch_name 0
            (snd (g_bus_watch_name example_is_name None 2 0 ''org.example.Other'' {} (Some 3)
                    (Some 4) 0 None
                    (snd (g_bus_watch_name example_is_name None 1 0 ''org.example.App'' {}
                            (Some 1) (Some 2) 0 None
                            (initial_world\<lparr>next_global_id := 0xFFFFFFFF\<rparr>))))))
       = Some (Some (PREVIOUS_CALL_NONE, False))"
  by code_simp

lemma step_no_client:
  assumes "heap w a = None" and "\<not> is_unwatch e"
  shows "step tdc a e w = None"
  using assms by (cases e) (auto split: list.splits)

text \<open>
  Claim C10. When the name is not a valid bus name, \<open>g_bus_watch_name\<close> and
  \<open>g_bus_watch_name_on_connection\<close> return 0 and change nothing but the log (one failed
  check): no client is allocated or inserted in the registry, no call is started and no
  idle source attached. So no event can reach a watcher at the address the call would
  have used, and no callback is delivered for the call.
\<close>

theorem watch_invalid_name:
  assumes "\<not> is_name nm"
  shows "g_bus_watch_name is_name ctx a bt nm fl ap va ud udf w
           = (0, w\<lparr>trace := trace w @ [Critical_check_failed ''g_dbus_is_name (name)'']\<rparr>)
       \<and> g_bus_watch_name_on_connection is_name ctx a cn hid sid nm fl ap va ud udf w
           = (0, w\<lparr>trace := trace w @
                      [Critical_check_failed
                         (if cn = None then ''G_IS_DBUS_CONNECTION (connection)''
                          else ''g_dbus_is_name (name)'')]\<rparr>)
       \<and> (heap w a = None \<and> \<not> is_unwatch e \<longrightarrow>
            step tdc a e (snd (g_bus_watch_name is_name ctx a bt nm fl ap va ud udf w)) = None
            \<and> step tdc a e (snd (g_bus_watch_name_on_connection is_name ctx a cn hid sid nm fl
                                    ap va ud udf w)) = None)"
proof -
  have a1: "g_bus_watch_name is_name ctx a bt nm fl ap va ud udf w
           = (0, w\<lparr>trace := trace w @ [Critical_check_failed ''g_dbus_is_name (name)'']\<rparr>)"
    using assms by (simp add: g_bus_watch_name_def emit_def)
  have a2: "g_bus_watch_name_on_connection is_name ctx a cn hid sid nm fl ap va ud udf w
           = (0, w\<lparr>trace := trace w @
                      [Critical_check_failed
                         (if cn = None then ''G_IS_DBUS_CONNECTION (connection)''
                          else ''g_dbus_is_name (name)'')]\<rparr>)"
    using assms by (simp add: g_bus_watch_name_on_connection_def emit_def)
  show ?thesis
    unfolding a1 a2 by (auto intro: step_no_client)
qed

text \<open>
  Claim C10 at the name \<open>bad\<close>, which the example check refuses.
\<close>

theorem watch_invalid_name_witness:
  "g_bus_watch_name example_is_name None 1 0 ''bad'' {} (Some 1) (Some 2) 0 None initial_world
     = (0, initial_world\<lparr>trace := [Critical_check_failed ''g_dbus_is_name (name)'']\<rparr>)
   \<and> step None 1 (Bus_get_finished None 0 0)
       (snd (g_bus_watch_name example_is_name None 1 0 ''bad'' {} (Some 1) (Some 2) 0 None
               initial_world)) = None"
proof -
  have n: "\<not> example_is_name ''bad''"
    by (simp add: example_is_name_def)
  have h: "heap initial_world 1 = None \<and> \<not> is_unwatch (Bus_get_finished None 0 0)"
    by (simp add: initial_world_def)
  from watch_invalid_name
         [where is_name = example_is_name and nm = "''bad''" and ctx = None and a = 1
            and bt = 0 and fl = "{}" and ap = "Some 1" and va = "Some 2" and ud = 0
            and udf = None and w = initial_world and e = "Bus_get_finished None 0 0"
            and tdc = None and cn = None and hid = 0 and sid = 0, OF n] h
  show ?thesis by (simp add: initial_world_def)
qed


subsection \<open>Events handled on the context of the watcher\<close>

text \<open>
  No callback starts the bus acquisition again, and the closure of the connection leaves
  no connection and the previous call Vanished; after that a completion calls and queues
  nothing.
\<close>

lemma connection_get_cb_calls:
  "connection_get_cb tdc a c res hid sid = (co, acts) \<Longrightarrow> BUS_GET \<notin> set (async_of acts)"
  by (auto simp: connection_get_cb_def Let_def async_of_append has_connection_def
        invoke_get_name_owner_def
      split: prod.splits if_splits option.splits
      dest!: call_vanished_handler_summary(4) client_unref_quiet)

lemma get_name_owner_cb_calls:
  "get_name_owner_cb tdc a c res = (co, acts) \<Longrightarrow> async_of acts = []"
  by (auto simp: get_name_owner_cb_def Let_def async_of_append
      split: prod.splits if_splits option.splits
      dest!: call_vanished_handler_summary(4) call_appeared_handler_summary(4) client_unref_quiet
        call_finish_quiet)

lemma start_service_by_name_cb_calls:
  "start_service_by_name_cb tdc a c res = (co, acts) \<Longrightarrow> BUS_GET \<notin> set (async_of acts)"
  by (auto simp: start_service_by_name_cb_def Let_def async_of_append invoke_get_name_owner_def
      split: prod.splits if_splits option.splits
      dest!: call_vanished_handler_summary(4) client_unref_quiet call_finish_quiet)

lemma on_name_owner_changed_calls:
  "on_name_owner_changed tdc a c s p i n old new = (c', acts) \<Longrightarrow> async_of acts = []"
  by (auto simp: on_name_owner_changed_def Let_def async_of_append
      split: prod.splits if_splits
      dest!: call_vanished_handler_summary(4) call_appeared_handler_summary(4))

lemma on_connection_disconnected_closed:
  assumes "on_connection_disconnected tdc a c = (c', acts)"
  shows "async_of acts = []" and "connection c' = None"
    and "previous_call c' = PREVIOUS_CALL_VANISHED"
proof -
  let ?c = "c\<lparr>disconnected_signal_handler_id := 0,
               name_owner_changed_subscription_id := 0, connection := None\<rparr>"
  obtain c1 a2 where h: "call_vanished_handler tdc a ?c False = (c1, a2)"
    by (cases "call_vanished_handler tdc a ?c False")
  with assms obtain a1 where eq: "c' = c1" "acts = a1 @ a2" and q: "async_of a1 = []"
    by (auto simp: on_connection_disconnected_def Let_def split: option.splits)
  note s = call_vanished_handler_summary [OF h]
  from s(4) q show "async_of acts = []" by (simp add: eq async_of_append)
  from s(1) show "connection c' = None" "previous_call c' = PREVIOUS_CALL_VANISHED"
    by (simp_all add: eq)
qed

lemma call_vanished_handler_again:
  "previous_call c = PREVIOUS_CALL_VANISHED \<Longrightarrow> call_vanished_handler tdc a c ig = (c, [])"
  by (simp add: call_vanished_handler_def)

lemma get_name_owner_cb_closed:
  assumes "get_name_owner_cb tdc a c res = (co, acts)"
    and "connection c = None" and "previous_call c = PREVIOUS_CALL_VANISHED"
  shows "callbacks acts = []" and "idle_of acts = []"
    and "\<And>c'. co = Some c' \<Longrightarrow>
           connection c' = None \<and> previous_call c' = PREVIOUS_CALL_VANISHED"
  using assms
  by (auto simp: get_name_owner_cb_def g_dbus_connection_call_finish_def
        call_vanished_handler_again client_unref_def Let_def callbacks_append idle_of_append
      split: if_splits option.splits)

lemma start_service_by_name_cb_closed:
  assumes "start_service_by_name_cb tdc a c res = (co, acts)"
    and "connection c = None" and "previous_call c = PREVIOUS_CALL_VANISHED"
  shows "callbacks acts = []" and "idle_of acts = []" and "async_of acts = []"
    and "\<And>c'. co = Some c' \<Longrightarrow>
           connection c' = None \<and> previous_call c' = PREVIOUS_CALL_VANISHED"
  using assms
  by (auto simp: start_service_by_name_cb_def g_dbus_connection_call_finish_def
        invoke_get_name_owner_def client_ref_def client_unref_def Let_def callbacks_append
        idle_of_append async_of_append
      split: if_splits option.splits)


text \<open>
  The invariant \<open>own_inv\<close> is preserved by every occurrence, and under it every call
  that is made at once finds no call queued.
\<close>

lemma own_same:
  assumes "own_inv ctx a w" and "heap w' a = heap w a" and "calls_of a w' = calls_of a w"
    and "queued_to a w' = queued_to a w"
  shows "own_inv ctx a w'"
  using assms by (auto simp: own_inv_def split: option.splits)

lemma own_frame:
  assumes "own_inv ctx a w" and "untouched a w w'"
  shows "own_inv ctx a w'"
  using assms(2) by (intro own_same [OF assms(1)]) (simp_all add: untouched_def queued_to_def)

lemma own_fields:
  assumes "own_inv ctx a w" and "heap w a = Some c"
    and "name_appeared_handler c' = name_appeared_handler c"
    and "name_vanished_handler c' = name_vanished_handler c"
    and "main_context c' = main_context c"
    and "connection c' = connection c" and "previous_call c' = previous_call c"
    and "heap w' a = None \<or> heap w' a = Some c'"
    and "calls_of a w' = calls_of a w"
    and "queued_to a w' = [] \<or> queued_to a w \<noteq> []"
  shows "own_inv ctx a w'"
  using assms by (auto simp: own_inv_def)

lemma own_store:
  assumes inv: "own_inv ctx a w"
    and h: "heap w a = Some c"
    and e: "effect_ok tdc c co acts"
    and t: "tagged a acts"
    and nb: "BUS_GET \<notin> set (calls_in a ps)" "BUS_GET \<notin> set (async_of acts)"
    and q: "(queued_to a w = [] \<and> idle_of acts = [])
            \<or> (\<forall>c'. co = Some c' \<longrightarrow>
                  connection c' = None \<and> previous_call c' = PREVIOUS_CALL_VANISHED)"
  shows "own_inv ctx a (store a (co, acts) (w\<lparr>pending := ps\<rparr>))"
proof -
  define w' where "w' = store a (co, acts) (w\<lparr>pending := ps\<rparr>)"
  from inv h have hs: "name_appeared_handler c \<noteq> None" "name_vanished_handler c \<noteq> None"
    "main_context c = ctx"
    by (simp_all add: own_inv_def)
  have hp: "heap w' a = co" by (simp add: w'_def)
  have qd: "queued_to a w' = queued_to a w @ map call_type (idle_of acts)"
    using own_tagged [OF t] by (simp add: w'_def queued_to_def)
  have cs: "calls_of a w' = calls_in a ps @ async_of acts"
    by (simp add: w'_def calls_of_def)
  show ?thesis
  proof (cases co)
    case None
    with hp show ?thesis unfolding w'_def [symmetric] by (simp add: own_inv_def)
  next
    case (Some c')
    with e have st: "name_appeared_handler c' = name_appeared_handler c"
      "name_vanished_handler c' = name_vanished_handler c"
      "main_context c' = main_context c"
      by (auto simp: effect_ok_def)
    from q Some have "queued_to a w' \<noteq> [] \<longrightarrow>
        connection c' = None \<and> previous_call c' = PREVIOUS_CALL_VANISHED"
      by (auto simp: qd)
    with Some hp st hs nb show ?thesis
      unfolding w'_def [symmetric] by (simp add: own_inv_def cs)
  qed
qed

lemma own_event:
  assumes inv: "own_inv ctx a w"
    and h: "heap w a = Some c"
    and w': "w' = store a (co, acts) (w\<lparr>pending := ps\<rparr>)"
    and e: "effect_ok tdc c co acts"
    and t: "tagged a acts"
    and nb: "BUS_GET \<notin> set (calls_in a ps)" "BUS_GET \<notin> set (async_of acts)"
    and q: "(queued_to a w = [] \<and> idle_of acts = [])
            \<or> (callbacks acts = [] \<or> queued_to a w = [])
              \<and> (\<forall>c'. co = Some c' \<longrightarrow>
                    connection c' = None \<and> previous_call c' = PREVIOUS_CALL_VANISHED)"
  shows "own_inv ctx a w' \<and> (new_callbacks w w' \<noteq> [] \<longrightarrow> queued_to a w = [])"
proof -
  from q have q': "(queued_to a w = [] \<and> idle_of acts = [])
                  \<or> (\<forall>c'. co = Some c' \<longrightarrow>
                        connection c' = None \<and> previous_call c' = PREVIOUS_CALL_VANISHED)"
    and o: "callbacks acts \<noteq> [] \<longrightarrow> queued_to a w = []"
    by auto
  have n: "new_callbacks w w' = callbacks acts"
    by (simp add: w' new_callbacks_def)
  from own_store [OF inv h e t nb q'] o n w' show ?thesis by simp
qed

lemma calls_in_sub: "set (calls_in a (remove1 (a, k) ps)) \<subseteq> set (calls_in a ps)"
  by (auto simp: calls_in_remove1 dest: subsetD [OF set_remove1_subset])

lemma own_occur:
  assumes inv: "own_inv ctx a w" and s: "occur g x w = Some w'"
    and nr: "\<not> registers a x" and oc: "replies_on_context ctx a x"
  shows "own_inv ctx a w'"
    and "handled_at a x \<and> \<not> is_idle_dispatch x \<and> new_callbacks w w' \<noteq> []
           \<longrightarrow> queued_to a w = []"
proof -
  have "own_inv ctx a w'
        \<and> (handled_at a x \<and> \<not> is_idle_dispatch x \<and> new_callbacks w w' \<noteq> []
             \<longrightarrow> queued_to a w = [])"
  proof (cases "\<exists>j. unwatches j x")
    case True
    then obtain b tdc j where x: "x = At b tdc (Unwatch j)"
      using unwatches_At by blast
    with s have u: "g_bus_unwatch_name j w = Some w'" by simp
    from unwatch_Some [OF u]
    consider (miss) y where "w' = w\<lparr>trace := trace w @ [y]\<rparr>"
      | (hit) b c co acts where "heap w b = Some c"
          "w' = store b (co, acts)
                  (w\<lparr>map_id_to_client := map_option (\<lambda>m. m(j := None)) (map_id_to_client w)\<rparr>)"
          "idle_of acts = []" "async_of acts = []"
          "co = (if ref_count c = 1 then None
                 else Some (c\<lparr>cancelled := True, ref_count := ref_count c - 1\<rparr>))"
      by blast
    then have "own_inv ctx a w'"
    proof cases
      case miss
      with inv show ?thesis
        by (intro own_same [OF inv]) (simp_all add: calls_of_def queued_to_def)
    next
      case hit
      note h = hit(1) and w' = hit(2) and q = hit(3,4) and co = hit(5)
      have same: "calls_of a w' = calls_of a w" "queued_to a w' = queued_to a w"
        using q by (simp_all add: w' calls_of_def queued_to_def)
      show ?thesis
      proof (cases "b = a")
        case False
        then have "heap w' a = heap w a" by (simp add: w')
        with same show ?thesis by (intro own_same [OF inv])
      next
        case True
        with h have ha: "heap w a = Some c" by simp
        from True co
        have "heap w' a = None
              \<or> heap w' a = Some (c\<lparr>cancelled := True, ref_count := ref_count c - 1\<rparr>)"
          by (simp add: w')
        with same show ?thesis
          by (intro own_fields [OF inv ha, of "c\<lparr>cancelled := True, ref_count := ref_count c - 1\<rparr>"])
             simp_all
      qed
    qed
    with unwatch_quiet [OF u] show ?thesis by simp
  next
    case False
    show ?thesis
    proof (cases "handled_at a x")
      case False
      from frame_occur [OF s False nr] \<open>\<not> (\<exists>j. unwatches j x)\<close>
      have "untouched a w w'" by simp
      with inv False show ?thesis by (simp add: own_frame)
    next
      case True
      then obtain tdc e where x: "x = At a tdc e" by (cases x) auto
      with \<open>\<not> (\<exists>j. unwatches j x)\<close> have nu: "\<not> is_unwatch e" by (cases e) auto
      show ?thesis
      proof (cases "e = Idle_dispatch")
        case True
        with s x have d: "dispatch_idle a w = Some w'" by simp
        from dispatch_idle_Some [OF d]
        obtain c data rest co acts where h: "heap w a = Some c"
          and t: "take_first a (idle w) = Some (data, rest)"
          and w': "w' = store a (co, acts) (w\<lparr>idle := rest\<rparr>)"
          and q: "idle_of acts = []" "async_of acts = []"
          and co: "co = (if ref_count c = 1 then None
                         else Some (c\<lparr>ref_count := ref_count c - 1\<rparr>))"
          by blast
        from take_first_Some [OF t] have "queued_to a w \<noteq> []" by (simp add: queued_to_def)
        moreover have "calls_of a w' = calls_of a w"
          using q by (simp add: w' calls_of_def)
        moreover from co have "heap w' a = None
                               \<or> heap w' a = Some (c\<lparr>ref_count := ref_count c - 1\<rparr>)"
          by (simp add: w')
        ultimately have "own_inv ctx a w'"
          by (intro own_fields [OF inv h, of "c\<lparr>ref_count := ref_count c - 1\<rparr>"]) simp_all
        with True x show ?thesis by simp
      next
        case ni: False
        from occur_handled [OF s [unfolded x] nu ni]
        obtain c where h: "heap w a = Some c" by blast
        from inv h have hs: "name_appeared_handler c \<noteq> None" "name_vanished_handler c \<noteq> None"
          and mc: "main_context c = ctx"
          and bg: "BUS_GET \<in> set (calls_of a w) \<longrightarrow> calls_of a w = [BUS_GET] \<and> connection c = None"
          and qu: "queued_to a w \<noteq> [] \<longrightarrow>
                     connection c = None \<and> previous_call c = PREVIOUS_CALL_VANISHED
                     \<and> BUS_GET \<notin> set (calls_of a w)"
          by (simp_all add: own_inv_def)
        have "own_inv ctx a w' \<and> (new_callbacks w w' \<noteq> [] \<longrightarrow> queued_to a w = [])"
        proof (cases e)
          case Connection_closed
          obtain c' acts where r: "on_connection_disconnected tdc a c = (c', acts)"
            by (cases "on_connection_disconnected tdc a c")
          with s x h Connection_closed have cn: "connection c \<noteq> None"
            and w': "w' = store a (Some c', acts) (w\<lparr>pending := pending w\<rparr>)"
            by (auto split: if_splits)
          from cn qu have q0: "queued_to a w = []" by auto
          from cn bg have nb: "BUS_GET \<notin> set (calls_in a (pending w))"
            by (auto simp: calls_of_def)
          note cl = on_connection_disconnected_closed [OF r]
          from moves_keep(1) [OF on_connection_disconnected_moves(1) [OF r hs(2)]]
          have e: "effect_ok tdc c (Some c') acts" .
          show ?thesis
            by (rule own_event [OF inv h w' e on_connection_disconnected_tagged [OF r] nb])
               (simp_all add: cl q0)
        next
          case (Bus_get_finished res hid sid)
          obtain co acts where r: "connection_get_cb tdc a c res hid sid = (co, acts)"
            by (cases "connection_get_cb tdc a c res hid sid")
          with s x h Bus_get_finished have k: "(a, BUS_GET) \<in> set (pending w)"
            and w': "w' = store a (co, acts) (w\<lparr>pending := remove1 (a, BUS_GET) (pending w)\<rparr>)"
            by (auto split: if_splits)
          from k have "BUS_GET \<in> set (calls_of a w)" by (simp add: calls_of_def calls_in_mem)
          with bg qu have c1: "calls_of a w = [BUS_GET]" and q0: "queued_to a w = []" by auto
          from c1 have nb: "BUS_GET \<notin> set (calls_in a (remove1 (a, BUS_GET) (pending w)))"
            by (simp add: calls_in_remove1 calls_of_def)
          note e = connection_get_cb_effect(1) [OF r hs]
          from oc x Bus_get_finished mc have "tdc = main_context c" by simp
          with e have i0: "idle_of acts = []" by (simp add: effect_ok_def)
          show ?thesis
            by (rule own_event [OF inv h w' e connection_get_cb_tagged [OF r] nb
                  connection_get_cb_calls [OF r]])
               (simp add: q0 i0)
        next
          case (Get_name_owner_finished res)
          obtain co acts where r: "get_name_owner_cb tdc a c res = (co, acts)"
            by (cases "get_name_owner_cb tdc a c res")
          with s x h Get_name_owner_finished have k: "(a, GET_NAME_OWNER) \<in> set (pending w)"
            and w': "w' = store a (co, acts)
                           (w\<lparr>pending := remove1 (a, GET_NAME_OWNER) (pending w)\<rparr>)"
            by (auto split: if_splits)
          from k have "GET_NAME_OWNER \<in> set (calls_of a w)"
            by (simp add: calls_of_def calls_in_mem)
          with bg have "BUS_GET \<notin> set (calls_of a w)" by auto
          with calls_in_sub [of a GET_NAME_OWNER "pending w"]
          have nb: "BUS_GET \<notin> set (calls_in a (remove1 (a, GET_NAME_OWNER) (pending w)))"
            by (auto simp: calls_of_def)
          note e = get_name_owner_cb_effect(1) [OF r hs]
          from oc x Get_name_owner_finished mc have "tdc = main_context c" by simp
          with e have i0: "idle_of acts = []" by (simp add: effect_ok_def)
          from get_name_owner_cb_calls [OF r] have na: "BUS_GET \<notin> set (async_of acts)" by simp
          have "(queued_to a w = [] \<and> idle_of acts = [])
                \<or> (callbacks acts = [] \<or> queued_to a w = [])
                  \<and> (\<forall>c'. co = Some c' \<longrightarrow>
                        connection c' = None \<and> previous_call c' = PREVIOUS_CALL_VANISHED)"
          proof (cases "queued_to a w = []")
            case True
            with i0 show ?thesis by simp
          next
            case False
            with qu have "connection c = None" "previous_call c = PREVIOUS_CALL_VANISHED" by auto
            from get_name_owner_cb_closed [OF r this] show ?thesis by blast
          qed
          then show ?thesis
            by (rule own_event [OF inv h w' e get_name_owner_cb_tagged [OF r] nb na])
        next
          case (Start_service_finished res)
          obtain co acts where r: "start_service_by_name_cb tdc a c res = (co, acts)"
            by (cases "start_service_by_name_cb tdc a c res")
          with s x h Start_service_finished
          have k: "(a, START_SERVICE_BY_NAME) \<in> set (pending w)"
            and w': "w' = store a (co, acts)
                           (w\<lparr>pending := remove1 (a, START_SERVICE_BY_NAME) (pending w)\<rparr>)"
            by (auto split: if_splits)
          from k have "START_SERVICE_BY_NAME \<in> set (calls_of a w)"
            by (simp add: calls_of_def calls_in_mem)
          with bg have "BUS_GET \<notin> set (calls_of a w)" by auto
          with calls_in_sub [of a START_SERVICE_BY_NAME "pending w"]
          have nb: "BUS_GET \<notin> set (calls_in a (remove1 (a, START_SERVICE_BY_NAME) (pending w)))"
            by (auto simp: calls_of_def)
          note e = start_service_by_name_cb_effect(1) [OF r hs]
          from oc x Start_service_finished mc have "tdc = main_context c" by simp
          with e have i0: "idle_of acts = []" by (simp add: effect_ok_def)
          have "(queued_to a w = [] \<and> idle_of acts = [])
                \<or> (callbacks acts = [] \<or> queued_to a w = [])
                  \<and> (\<forall>c'. co = Some c' \<longrightarrow>
                        connection c' = None \<and> previous_call c' = PREVIOUS_CALL_VANISHED)"
          proof (cases "queued_to a w = []")
            case True
            with i0 show ?thesis by simp
          next
            case False
            with qu have "connection c = None" "previous_call c = PREVIOUS_CALL_VANISHED" by auto
            from start_service_by_name_cb_closed [OF r this] show ?thesis by blast
          qed
          then show ?thesis
            by (rule own_event [OF inv h w' e start_service_by_name_cb_tagged [OF r] nb
                  start_service_by_name_cb_calls [OF r]])
        next
          case (Name_owner_changed sn op' inn nm old new)
          obtain c' acts where
            r: "on_name_owner_changed tdc a c sn op' inn nm old new = (c', acts)"
            by (cases "on_name_owner_changed tdc a c sn op' inn nm old new")
          with s x h Name_owner_changed have cn: "connection c \<noteq> None"
            and w': "w' = store a (Some c', acts) (w\<lparr>pending := pending w\<rparr>)"
            by (auto split: if_splits)
          from cn qu have q0: "queued_to a w = []" by auto
          from cn bg have nb: "BUS_GET \<notin> set (calls_in a (pending w))"
            by (auto simp: calls_of_def)
          from moves_keep(1) [OF on_name_owner_changed_moves [OF r hs]]
          have e: "effect_ok tdc c (Some c') acts" .
          from oc x Name_owner_changed mc have "tdc = main_context c" by simp
          with e have i0: "idle_of acts = []" by (simp add: effect_ok_def)
          from on_name_owner_changed_calls [OF r] have na: "BUS_GET \<notin> set (async_of acts)"
            by simp
          show ?thesis
            by (rule own_event [OF inv h w' e on_name_owner_changed_tagged [OF r] nb na])
               (simp add: q0 i0)
        next
          case (Unwatch i)
          with nu show ?thesis by simp
        next
          case Idle_dispatch
          with ni show ?thesis by simp
        qed
        with x show ?thesis by simp
      qed
    qed
  qed
  then show "own_inv ctx a w'"
    and "handled_at a x \<and> \<not> is_idle_dispatch x \<and> new_callbacks w w' \<noteq> []
           \<longrightarrow> queued_to a w = []"
    by simp_all
qed

lemma own_run:
  assumes "own_inv ctx a w" and "\<not> list_ex (registers a) xs"
    and "list_all (replies_on_context ctx a) xs"
  shows "in_order g a xs w"
  using assms
proof (induction xs arbitrary: w)
  case Nil
  then show ?case by simp
next
  case (Cons x xs)
  show ?case
  proof (cases "occur g x w")
    case None
    then show ?thesis by simp
  next
    case (Some w')
    from Cons.prems have nr: "\<not> registers a x" "\<not> list_ex (registers a) xs"
      and oc: "replies_on_context ctx a x" "list_all (replies_on_context ctx a) xs"
      by simp_all
    note o = own_occur [OF Cons.prems(1) Some nr(1) oc(1)]
    from Cons.IH [OF o(1) nr(2) oc(2)] o(2) Some show ?thesis by simp
  qed
qed

lemma has_connection_calls:
  "has_connection c hid sid = (c', acts) \<Longrightarrow> BUS_GET \<notin> set (async_of acts)"
  by (auto simp: has_connection_def invoke_get_name_owner_def Let_def
      split: if_splits option.splits)

lemma own_unused: "unused a w \<Longrightarrow> own_inv ctx a w"
  by (simp add: unused_def own_inv_def)

lemma own_watch:
  assumes "unused a w0" and "appeared \<noteq> None" and "vanished \<noteq> None"
  shows "own_inv ctx a (snd (g_bus_watch_name g ctx a bt nm fl appeared vanished ud udf w0))"
proof (cases "g nm")
  case False
  from own_frame [OF own_unused [OF assms(1)] watch_refused(1) [where g = g and nm = nm]] False
  show ?thesis by simp
next
  case True
  from assms watch_world [where g = g and nm = nm, OF True, of ctx a bt fl appeared vanished ud udf w0]
  show ?thesis by (simp add: own_inv_def queued_to_def calls_of_def unused_def)
qed

lemma own_watch_on_connection:
  assumes "unused a w0" and "appeared \<noteq> None" and "vanished \<noteq> None"
  shows "own_inv ctx a
           (snd (g_bus_watch_name_on_connection g ctx a cn hid sid nm fl appeared vanished
                   ud udf w0))"
proof (cases "g nm \<and> cn \<noteq> None")
  case False
  then have "\<not> g nm \<or> cn = None" by simp
  from own_frame [OF own_unused [OF assms(1)] watch_refused(2) [where g = g and nm = nm, OF this]]
  show ?thesis .
next
  case True
  let ?c = "new_client (next_global_id w0) nm fl appeared vanished ud udf ctx
              \<lparr>connection := cn\<rparr>"
  obtain c' acts where h: "has_connection ?c hid sid = (c', acts)"
    by (cases "has_connection ?c hid sid")
  from moves_has_connection [OF h, of ctx]
  have "name_appeared_handler c' = appeared" "name_vanished_handler c' = vanished"
    "main_context c' = ctx"
    by (simp_all add: moves_def)
  with assms has_connection_calls [OF h]
    watch_on_connection_world [where g = g and nm = nm, OF conjunct1 [OF True] conjunct2 [OF True] h, of a]
  show ?thesis by (simp add: own_inv_def queued_to_def calls_of_def unused_def)
qed

text \<open>
  The usual threading. Take a watcher registered with both handlers in a thread whose
  thread-default main context is \<open>ctx\<close> (in a process in any state, at an unused
  address), and any sequence of occurrences in which the completions of its asynchronous
  calls and its \<open>NameOwnerChanged\<close> signals are handled under \<open>ctx\<close>; the closure of
  its connection may be signalled in any thread. Then no handler is invoked at once while
  an earlier call of the watcher is queued in an idle source, and the callbacks delivered
  to the watcher strictly alternate: the only call that is ever queued is the Vanished of
  the closure, and nothing is decided after it.
\<close>

theorem replies_on_context_in_order:
  assumes "unused a w0"
    and "appeared \<noteq> None" and "vanished \<noteq> None"
    and "w1 = snd (g_bus_watch_name is_name ctx a bt nm fl appeared vanished ud udf w0)
         \<or> w1 = snd (g_bus_watch_name_on_connection is_name ctx a cn hid sid nm fl appeared
                       vanished ud udf w0)"
    and "\<not> list_ex (registers a) occs"
    and "list_all (replies_on_context ctx a) occs"
  shows "in_order is_name a occs w1 \<and> alternates (delivered_to is_name a occs w1)"
proof -
  from assms(4) have "own_inv ctx a w1 \<and> watcher_inv a [] w1"
  proof
    assume "w1 = snd (g_bus_watch_name is_name ctx a bt nm fl appeared vanished ud udf w0)"
    with assms(1-3) show ?thesis
      using own_watch [where g = is_name and nm = nm] inv_watch [where g = is_name and nm = nm]
      by simp
  next
    assume "w1 = snd (g_bus_watch_name_on_connection is_name ctx a cn hid sid nm fl appeared
                          vanished ud udf w0)"
    with assms(1-3) show ?thesis
      using own_watch_on_connection [where g = is_name and nm = nm]
        inv_watch_on_connection [where g = is_name and nm = nm]
      by simp
  qed
  then have o: "own_inv ctx a w1" and i: "watcher_inv a [] w1" by simp_all
  from own_run [OF o assms(5,6)] have io: "in_order is_name a occs w1" .
  from inv_run [OF i assms(5) io] have "alternates (delivered_to is_name a occs w1)"
    using follows_alternates by fastforce
  with io show ?thesis by simp
qed

text \<open>
  A watcher registered on a connection under the context 3: its owner query finds no
  owner, the name gets an owner, the connection closes (signalled in a thread with the
  default context), the watcher is unwatched, and the queued Vanished is dispatched.
\<close>

theorem replies_on_context_in_order_witness:
  "delivered_to example_is_name 1
     [At 1 (Some 3) (Get_name_owner_finished None),
      At 1 (Some 3) (Name_owner_changed ''org.freedesktop.DBus'' ''/org/freedesktop/DBus''
                       ''org.freedesktop.DBus'' ''org.example.App'' [] '':1.6''),
      At 1 None Connection_closed,
      At 1 (Some 3) (Unwatch 1),
      At 1 (Some 3) Idle_dispatch]
     (snd (g_bus_watch_name_on_connection example_is_name (Some 3) 1 (Some 7) 1 1
             ''org.example.App'' {} (Some 1) (Some 2) 0 None initial_world))
     = [CALL_TYPE_NAME_VANISHED, CALL_TYPE_NAME_APPEARED, CALL_TYPE_NAME_VANISHED]
   \<and> in_order example_is_name 1
       [At 1 (Some 3) (Get_name_owner_finished None),
        At 1 (Some 3) (Name_owner_changed ''org.freedesktop.DBus'' ''/org/freedesktop/DBus''
                         ''org.freedesktop.DBus'' ''org.example.App'' [] '':1.6''),
        At 1 None Connection_closed,
        At 1 (Some 3) (Unwatch 1),
        At 1 (Some 3) Idle_dispatch]
       (snd (g_bus_watch_name_on_connection example_is_name (Some 3) 1 (Some 7) 1 1
               ''org.example.App'' {} (Some 1) (Some 2) 0 None initial_world))"
proof -
  let ?w1 = "snd (g_bus_watch_name_on_connection example_is_name (Some 3) 1 (Some 7) 1 1
                    ''org.example.App'' {} (Some 1) (Some 2) 0 None initial_world)"
  let ?occs = "[At 1 (Some 3) (Get_name_owner_finished None),
      At 1 (Some 3) (Name_owner_changed ''org.freedesktop.DBus'' ''/org/freedesktop/DBus''
                       ''org.freedesktop.DBus'' ''org.example.App'' [] '':1.6''),
      At 1 None Connection_closed,
      At 1 (Some 3) (Unwatch 1),
      At 1 (Some 3) Idle_dispatch]"
  have e: "delivered_to example_is_name 1 ?occs ?w1
             = [CALL_TYPE_NAME_VANISHED, CALL_TYPE_NAME_APPEARED, CALL_TYPE_NAME_VANISHED]"
    by code_simp
  have u: "unused 1 initial_world"
    by (simp add: unused_def initial_world_def calls_of_def lookup_client_def)
  have hs: "(Some 1 :: handler option) \<noteq> None" "(Some 2 :: handler option) \<noteq> None"
    by simp_all
  have w1: "?w1 = snd (g_bus_watch_name example_is_name (Some 3) 1 0 ''org.example.App'' {}
                         (Some 1) (Some 2) 0 None initial_world)
            \<or> ?w1 = snd (g_bus_watch_name_on_connection example_is_name (Some 3) 1 (Some 7) 1 1
                            ''org.example.App'' {} (Some 1) (Some 2) 0 None initial_world)"
    by simp
  have nr: "\<not> list_ex (registers 1) ?occs"
    by simp
  have oc: "list_all (replies_on_context (Some 3) 1) ?occs"
    by simp
  from replies_on_context_in_order
         [where is_name = example_is_name and nm = "''org.example.App''", OF u hs w1 nr oc]
  have "in_order example_is_name 1 ?occs ?w1" by simp
  with e show ?thesis by simp
qed

end
